theory Spec2Isabelle
  imports Main "HOL-Library.Word" "HOL-Library.Monad_Syntax" "HOL-Library.Signed_Division"
begin

unbundle bit_operations_syntax

section \<open>Sum of squared differences over RGBA8 buffers\<close>

text \<open>
  The prototypes under \<^verbatim>\<open>src/prototypes\<close> compute the sum of squared differences of
  the R, G and B samples of two RGBA8 images: a scalar reference kernel
  (\<^verbatim>\<open>ssd_scalar\<close>) and three vectorised kernels (\<^verbatim>\<open>ssd_avx2\<close>,
  \<^verbatim>\<open>ssd_avx2_simple\<close>, \<^verbatim>\<open>ssd_avx2_v2\<close>).

  A buffer is a list of bytes. A C \<^verbatim>\<open>int\<close>, \<^verbatim>\<open>int32_t\<close> or \<^verbatim>\<open>int64_t\<close> value is a
  mathematical integer, and every operation whose C result would not fit its type, as
  every read outside a buffer, has the value \<open>None\<close>: C leaves both undefined. The
  registers of the vector unit are lists of bytes, which every intrinsic reads as lanes
  of the width it works on (little endian). A \<^verbatim>\<open>double\<close> that holds an integer is that
  integer; conversion and addition round to 53 significant bits.
\<close>

subsection \<open>Machine integers, buffers and doubles\<close>

type_synonym byte = "8 word"
type_synonym buffer = "byte list"

definition INT_MAX :: int where
  "INT_MAX = 2 ^ 31 - 1"

text \<open>The result of an \<^verbatim>\<open>int\<close> or \<^verbatim>\<open>int32_t\<close> operation: signed overflow is undefined.\<close>

definition cint :: "int \<Rightarrow> int option" where
  "cint v = (if - (2 ^ 31) \<le> v \<and> v \<le> INT_MAX then Some v else None)"

text \<open>The result of an \<^verbatim>\<open>int64_t\<close> operation.\<close>

definition cint64 :: "int \<Rightarrow> int option" where
  "cint64 v = (if - (2 ^ 63) \<le> v \<and> v < 2 ^ 63 then Some v else None)"

text \<open>The read \<^verbatim>\<open>a[i]\<close>.\<close>

definition rd :: "buffer \<Rightarrow> int \<Rightarrow> byte option" where
  "rd a i = (if 0 \<le> i \<and> i < int (length a) then Some (a ! nat i) else None)"

text \<open>The number of binary digits of a positive integer.\<close>

function bit_width :: "int \<Rightarrow> nat" where
  "bit_width n = (if n \<le> 0 then 0 else Suc (bit_width (n div 2)))"
  by pat_completeness auto
termination
  by (relation "measure nat") auto

declare bit_width.simps [simp del]

text \<open>
  The integer \<open>n\<close> as a \<^verbatim>\<open>double\<close>: \<open>n\<close> itself when it has at most 53 binary digits,
  and otherwise the nearest multiple of \<open>2 ^ e\<close> that has 53, a tie going to the even one
  (the exponent range of a double is far beyond every value below).
\<close>

definition double_of_int :: "int \<Rightarrow> int" where
  "double_of_int n =
     (let m = \<bar>n\<bar>; k = bit_width m in
      if k \<le> 53 then n
      else
        let e = k - 53;
            q = m div 2 ^ e;
            r = m mod 2 ^ e;
            h = 2 ^ (e - 1);
            q' = (if h < r \<or> (r = h \<and> odd q) then q + 1 else q)
        in sgn n * (q' * 2 ^ e))"

text \<open>The sum of two doubles that hold integers: the exact sum, rounded.\<close>

definition dadd :: "int \<Rightarrow> int \<Rightarrow> int" where
  "dadd x y = double_of_int (x + y)"

subsection \<open>Loops\<close>

text \<open>
  \<^verbatim>\<open>for (; x < bound; x += step) body\<close>, from the counter \<open>x\<close> and the state \<open>s\<close>; the
  result is the counter and the state after the loop. A step that is not positive never
  leaves the loop without overflowing the counter. With a positive step the increment
  itself is not checked: in every loop of the kernels the counter is a multiple of the
  step below a bound that is one too, or the step is 1, so \<^verbatim>\<open>x + step\<close> is at most the
  bound, an \<^verbatim>\<open>int\<close> value.
\<close>

function for_lt :: "int \<Rightarrow> int \<Rightarrow> int \<Rightarrow> (int \<Rightarrow> 's \<Rightarrow> 's option) \<Rightarrow> 's \<Rightarrow> (int \<times> 's) option" where
  "for_lt x bound step body s =
     (if x < bound then
        (if step \<le> 0 then None
         else case body x s of
                None \<Rightarrow> None
              | Some s' \<Rightarrow> for_lt (x + step) bound step body s')
      else Some (x, s))"
  by pat_completeness auto
termination
  by (relation "measure (\<lambda>(x, bound, step, body, s). nat (bound - x))") auto

declare for_lt.simps [simp del]

text \<open>\<^verbatim>\<open>for (; x <= bound; x += step) body\<close>.\<close>

definition for_le :: "int \<Rightarrow> int \<Rightarrow> int \<Rightarrow> (int \<Rightarrow> 's \<Rightarrow> 's option) \<Rightarrow> 's \<Rightarrow> (int \<times> 's) option" where
  "for_le x bound step body s = for_lt x (bound + 1) step body s"

subsection \<open>The scalar reference kernel\<close>

text \<open>
  The three differences of the pixel at byte offset \<open>i\<close> and the sum of their squares, in
  \<^verbatim>\<open>int32_t\<close>; the byte at \<open>i + 3\<close> is not read.
\<close>

definition pixel_ssd :: "buffer \<Rightarrow> buffer \<Rightarrow> int \<Rightarrow> int option" where
  "pixel_ssd a b i = do {
     i0 \<leftarrow> cint (i + 0); a0 \<leftarrow> rd a i0; b0 \<leftarrow> rd b i0;
     dr \<leftarrow> cint (uint a0 - uint b0);
     i1 \<leftarrow> cint (i + 1); a1 \<leftarrow> rd a i1; b1 \<leftarrow> rd b i1;
     dg \<leftarrow> cint (uint a1 - uint b1);
     i2 \<leftarrow> cint (i + 2); a2 \<leftarrow> rd a i2; b2 \<leftarrow> rd b i2;
     db \<leftarrow> cint (uint a2 - uint b2);
     cint (dr * dr + dg * dg + db * db)
   }"

definition ssd_scalar :: "buffer \<Rightarrow> buffer \<Rightarrow> int \<Rightarrow> int \<Rightarrow> int \<Rightarrow> int option" where
  "ssd_scalar a b stride width height =
     map_option snd
       (for_lt 0 height 1
          (\<lambda>y sum. do {
             row_start \<leftarrow> cint (y * stride);
             map_option snd
               (for_lt 0 width 1
                  (\<lambda>x sum. do {
                     x4 \<leftarrow> cint (x * 4);
                     i \<leftarrow> cint (row_start + x4);
                     v \<leftarrow> pixel_ssd a b i;
                     Some (dadd sum (double_of_int v))
                   })
                  sum)
           })
          0)"

subsection \<open>Vector registers and intrinsics\<close>

text \<open>
  A 256-bit register is a list of 32 bytes, a 128-bit register a list of 16, byte 0
  first. An intrinsic that works on 16-bit or 32-bit lanes reads them little endian.
\<close>

type_synonym m256i = "byte list"
type_synonym m128i = "byte list"

definition lane16 :: "byte \<Rightarrow> byte \<Rightarrow> 16 word" where
  "lane16 b0 b1 = ucast b0 OR push_bit 8 (ucast b1)"

definition lane32 :: "byte \<Rightarrow> byte \<Rightarrow> byte \<Rightarrow> byte \<Rightarrow> 32 word" where
  "lane32 b0 b1 b2 b3 =
     ucast b0 OR push_bit 8 (ucast b1) OR push_bit 16 (ucast b2) OR push_bit 24 (ucast b3)"

fun epi16_of :: "byte list \<Rightarrow> 16 word list" where
  "epi16_of (b0 # b1 # bs) = lane16 b0 b1 # epi16_of bs"
| "epi16_of _ = []"

fun epi32_of :: "byte list \<Rightarrow> 32 word list" where
  "epi32_of (b0 # b1 # b2 # b3 # bs) = lane32 b0 b1 b2 b3 # epi32_of bs"
| "epi32_of _ = []"

fun bytes_of_epi16 :: "16 word list \<Rightarrow> byte list" where
  "bytes_of_epi16 [] = []"
| "bytes_of_epi16 (w # ws) = ucast w # ucast (drop_bit 8 w) # bytes_of_epi16 ws"

fun bytes_of_epi32 :: "32 word list \<Rightarrow> byte list" where
  "bytes_of_epi32 [] = []"
| "bytes_of_epi32 (w # ws) =
     ucast w # ucast (drop_bit 8 w) # ucast (drop_bit 16 w) # ucast (drop_bit 24 w)
       # bytes_of_epi32 ws"

definition mm256_setzero_si256 :: m256i where
  "mm256_setzero_si256 = replicate 32 0"

text \<open>\<^verbatim>\<open>_mm256_loadu_si256((__m256i*)&a[i])\<close>: the 32 bytes from offset \<open>i\<close>.\<close>

definition mm256_loadu_si256 :: "buffer \<Rightarrow> int \<Rightarrow> m256i option" where
  "mm256_loadu_si256 a i =
     (if 0 \<le> i \<and> i + 32 \<le> int (length a) then Some (take 32 (drop (nat i) a)) else None)"

fun interleave :: "'a list \<Rightarrow> 'a list \<Rightarrow> 'a list" where
  "interleave (x # xs) (y # ys) = x # y # interleave xs ys"
| "interleave _ _ = []"

text \<open>
  \<^verbatim>\<open>_mm256_unpacklo_epi8\<close> and \<^verbatim>\<open>_mm256_unpackhi_epi8\<close> interleave the low (high) eight
  bytes of the two operands, in each 128-bit half of the register on its own.
\<close>

definition mm256_unpacklo_epi8 :: "m256i \<Rightarrow> m256i \<Rightarrow> m256i" where
  "mm256_unpacklo_epi8 x y =
     interleave (take 8 x) (take 8 y) @ interleave (take 8 (drop 16 x)) (take 8 (drop 16 y))"

definition mm256_unpackhi_epi8 :: "m256i \<Rightarrow> m256i \<Rightarrow> m256i" where
  "mm256_unpackhi_epi8 x y =
     interleave (take 8 (drop 8 x)) (take 8 (drop 8 y))
       @ interleave (take 8 (drop 24 x)) (take 8 (drop 24 y))"

definition mm256_castsi256_si128 :: "m256i \<Rightarrow> m128i" where
  "mm256_castsi256_si128 x = take 16 x"

text \<open>\<^verbatim>\<open>_mm256_extracti128_si256(x, 1)\<close>: the high half.\<close>

definition mm256_extracti128_si256_1 :: "m256i \<Rightarrow> m128i" where
  "mm256_extracti128_si256_1 x = take 16 (drop 16 x)"

text \<open>\<^verbatim>\<open>_mm256_cvtepu8_epi16\<close>: sixteen bytes, each zero-extended to a 16-bit lane.\<close>

definition mm256_cvtepu8_epi16 :: "m128i \<Rightarrow> m256i" where
  "mm256_cvtepu8_epi16 x = bytes_of_epi16 (map ucast x)"

definition mm256_sub_epi8 :: "m256i \<Rightarrow> m256i \<Rightarrow> m256i" where
  "mm256_sub_epi8 x y = map2 (-) x y"

definition mm256_sub_epi16 :: "m256i \<Rightarrow> m256i \<Rightarrow> m256i" where
  "mm256_sub_epi16 x y = bytes_of_epi16 (map2 (-) (epi16_of x) (epi16_of y))"

text \<open>
  \<^verbatim>\<open>_mm256_madd_epi16\<close>: the signed products of corresponding 16-bit lanes, and the sum
  of each two adjacent products as a 32-bit lane.
\<close>

fun madd_pairs :: "16 word list \<Rightarrow> 16 word list \<Rightarrow> 32 word list" where
  "madd_pairs (x0 # x1 # xs) (y0 # y1 # ys) =
     word_of_int (sint x0 * sint y0 + sint x1 * sint y1) # madd_pairs xs ys"
| "madd_pairs _ _ = []"

definition mm256_madd_epi16 :: "m256i \<Rightarrow> m256i \<Rightarrow> m256i" where
  "mm256_madd_epi16 x y = bytes_of_epi32 (madd_pairs (epi16_of x) (epi16_of y))"

definition mm256_set1_epi32 :: "int \<Rightarrow> m256i" where
  "mm256_set1_epi32 v = bytes_of_epi32 (replicate 8 (word_of_int v))"

definition mm256_add_epi32 :: "m256i \<Rightarrow> m256i \<Rightarrow> m256i" where
  "mm256_add_epi32 x y = bytes_of_epi32 (map2 (+) (epi32_of x) (epi32_of y))"

text \<open>\<^verbatim>\<open>_mm256_storeu_si256\<close> into an \<^verbatim>\<open>int32_t[8]\<close>: the eight lanes, as signed values.\<close>

definition store_int32 :: "m256i \<Rightarrow> int list" where
  "store_int32 x = map sint (epi32_of x)"

text \<open>An \<^verbatim>\<open>int32_t\<close> sum \<^verbatim>\<open>v + x1 + x2 + ...\<close>, evaluated from the left.\<close>

fun sum_int32 :: "int \<Rightarrow> int list \<Rightarrow> int option" where
  "sum_int32 v [] = Some v"
| "sum_int32 v (x # xs) = (case cint (v + x) of None \<Rightarrow> None | Some v' \<Rightarrow> sum_int32 v' xs)"

subsection \<open>The vectorised kernels\<close>

text \<open>
  Each kernel walks a row in batches of eight pixels and then pixel by pixel. The body of
  each of the two loops is a definition of its own here; \<open>row_start\<close>, \<open>x\<close> and the
  accumulator are the variables of the source.

  The body of the remainder loop of \<^verbatim>\<open>ssd_avx2\<close> and \<^verbatim>\<open>ssd_avx2_simple\<close>, with the
  \<^verbatim>\<open>int64_t\<close> accumulator:
\<close>

definition tail_pixel :: "buffer \<Rightarrow> buffer \<Rightarrow> int \<Rightarrow> int \<Rightarrow> int \<Rightarrow> int option" where
  "tail_pixel a b row_start x total_sum = do {
     x4 \<leftarrow> cint (x * 4);
     i \<leftarrow> cint (row_start + x4);
     v \<leftarrow> pixel_ssd a b i;
     cint64 (total_sum + v)
   }"

text \<open>
  \<^verbatim>\<open>ssd_avx2\<close> of \<^verbatim>\<open>ssd_avx2.c\<close> (the two files for GoAT hold the same function). The
  batch adds the sixteen lanes of the two products to the total, computes the sum of the
  eight pixels from the stored bytes, takes the lanes off the total again and adds the
  pixel sum.
\<close>

definition avx2_block :: "buffer \<Rightarrow> buffer \<Rightarrow> int \<Rightarrow> int \<Rightarrow> int \<Rightarrow> int option" where
  "avx2_block a b row_start x total_sum = do {
     x4 \<leftarrow> cint (x * 4);
     i \<leftarrow> cint (row_start + x4);
     va \<leftarrow> mm256_loadu_si256 a i;
     vb \<leftarrow> mm256_loadu_si256 b i;
     let va_lo = mm256_unpacklo_epi8 va mm256_setzero_si256;
     let vb_lo = mm256_unpacklo_epi8 vb mm256_setzero_si256;
     let va_hi = mm256_unpackhi_epi8 va mm256_setzero_si256;
     let vb_hi = mm256_unpackhi_epi8 vb mm256_setzero_si256;
     let diff_lo = mm256_sub_epi16 va_lo vb_lo;
     let diff_hi = mm256_sub_epi16 va_hi vb_hi;
     let sq_lo = mm256_madd_epi16 diff_lo diff_lo;
     let sq_hi = mm256_madd_epi16 diff_hi diff_hi;
     let sq_lo_arr = store_int32 sq_lo;
     let sq_hi_arr = store_int32 sq_hi;
     (_, total_sum) \<leftarrow>
       for_lt 0 8 1
         (\<lambda>j total_sum. do {
            t \<leftarrow> cint64 (total_sum + sq_lo_arr ! nat j);
            cint64 (t + sq_hi_arr ! nat j)
          })
         total_sum;
     let a_bytes = va;
     let b_bytes = vb;
     (_, pixel_sum) \<leftarrow>
       for_lt 0 8 1
         (\<lambda>p pixel_sum. do {
            idx \<leftarrow> cint (p * 4);
            v \<leftarrow> pixel_ssd a_bytes b_bytes idx;
            cint (pixel_sum + v)
          })
         0;
     s \<leftarrow> sum_int32 (sq_lo_arr ! 0)
            [sq_lo_arr ! 1, sq_lo_arr ! 2, sq_lo_arr ! 3,
             sq_lo_arr ! 4, sq_lo_arr ! 5, sq_lo_arr ! 6, sq_lo_arr ! 7,
             sq_hi_arr ! 0, sq_hi_arr ! 1, sq_hi_arr ! 2, sq_hi_arr ! 3,
             sq_hi_arr ! 4, sq_hi_arr ! 5, sq_hi_arr ! 6, sq_hi_arr ! 7];
     total_sum \<leftarrow> cint64 (total_sum - s);
     cint64 (total_sum + pixel_sum)
   }"

definition ssd_avx2 :: "buffer \<Rightarrow> buffer \<Rightarrow> int \<Rightarrow> int \<Rightarrow> int \<Rightarrow> int option" where
  "ssd_avx2 a b stride width height = do {
     (_, total_sum) \<leftarrow>
       for_lt 0 height 1
         (\<lambda>y total_sum. do {
            row_start \<leftarrow> cint (y * stride);
            simd_width \<leftarrow> cint ((width sdiv 8) * 8);
            (x, total_sum) \<leftarrow> for_lt 0 simd_width 8 (avx2_block a b row_start) total_sum;
            (_, total_sum) \<leftarrow> for_lt x width 1 (tail_pixel a b row_start) total_sum;
            Some total_sum
          })
         0;
     Some (double_of_int total_sum)
   }"

text \<open>
  \<^verbatim>\<open>ssd_avx2_simple\<close> of \<^verbatim>\<open>ssd_avx2_simple.c\<close>. The batch sums all sixteen lanes of the
  two products and takes the eight squared alpha differences off, which it reads from
  the buffers.
\<close>

definition simple_block :: "buffer \<Rightarrow> buffer \<Rightarrow> int \<Rightarrow> int \<Rightarrow> int \<Rightarrow> int option" where
  "simple_block a b row_start x total_sum = do {
     x4 \<leftarrow> cint (x * 4);
     i \<leftarrow> cint (row_start + x4);
     va \<leftarrow> mm256_loadu_si256 a i;
     vb \<leftarrow> mm256_loadu_si256 b i;
     let vdiff = mm256_sub_epi8 va vb;
     let va_lo = mm256_castsi256_si128 va;
     let va_hi = mm256_extracti128_si256_1 va;
     let vb_lo = mm256_castsi256_si128 vb;
     let vb_hi = mm256_extracti128_si256_1 vb;
     let va_lo_16 = mm256_cvtepu8_epi16 va_lo;
     let va_hi_16 = mm256_cvtepu8_epi16 va_hi;
     let vb_lo_16 = mm256_cvtepu8_epi16 vb_lo;
     let vb_hi_16 = mm256_cvtepu8_epi16 vb_hi;
     let diff_lo = mm256_sub_epi16 va_lo_16 vb_lo_16;
     let diff_hi = mm256_sub_epi16 va_hi_16 vb_hi_16;
     let sq_lo = mm256_madd_epi16 diff_lo diff_lo;
     let sq_hi = mm256_madd_epi16 diff_hi diff_hi;
     let sq_lo_arr = store_int32 sq_lo;
     let sq_hi_arr = store_int32 sq_hi;
     (_, pixel_sum) \<leftarrow>
       for_lt 0 8 2
         (\<lambda>p pixel_sum. do {
            t \<leftarrow> cint (pixel_sum + sq_lo_arr ! nat p);
            cint (t + sq_lo_arr ! nat (p + 1))
          })
         0;
     (_, pixel_sum) \<leftarrow>
       for_lt 0 8 2
         (\<lambda>p pixel_sum. do {
            t \<leftarrow> cint (pixel_sum + sq_hi_arr ! nat p);
            cint (t + sq_hi_arr ! nat (p + 1))
          })
         pixel_sum;
     (_, pixel_sum) \<leftarrow>
       for_lt 0 8 1
         (\<lambda>p pixel_sum. do {
            p4 \<leftarrow> cint (p * 4);
            ip \<leftarrow> cint (i + p4);
            idx \<leftarrow> cint (ip + 3);
            ai \<leftarrow> rd a idx;
            bi \<leftarrow> rd b idx;
            da \<leftarrow> cint (uint ai - uint bi);
            dd \<leftarrow> cint (da * da);
            cint (pixel_sum - dd)
          })
         pixel_sum;
     cint64 (total_sum + pixel_sum)
   }"

definition ssd_avx2_simple :: "buffer \<Rightarrow> buffer \<Rightarrow> int \<Rightarrow> int \<Rightarrow> int \<Rightarrow> int option" where
  "ssd_avx2_simple a b stride width height = do {
     (_, total_sum) \<leftarrow>
       for_lt 0 height 1
         (\<lambda>y total_sum. do {
            row_start \<leftarrow> cint (y * stride);
            lim \<leftarrow> cint (width - 8);
            (x, total_sum) \<leftarrow> for_le 0 lim 8 (simple_block a b row_start) total_sum;
            (_, total_sum) \<leftarrow> for_lt x width 1 (tail_pixel a b row_start) total_sum;
            Some total_sum
          })
         0;
     Some (double_of_int total_sum)
   }"

text \<open>
  \<^verbatim>\<open>ssd_avx2_v2\<close> of \<^verbatim>\<open>ssd_avx2_v2.c\<close>. The accumulator is a register of eight 32-bit
  lanes. The batch takes the lanes that hold \<open>R\<^sup>2 + G\<^sup>2\<close> and adds each \<open>B\<^sup>2\<close>, read from the
  buffers; the sum is written to every lane of a register, which is added to the
  accumulator. The remainder loop does the same with the sum of one pixel.
\<close>

definition v2_block :: "buffer \<Rightarrow> buffer \<Rightarrow> int \<Rightarrow> int \<Rightarrow> m256i \<Rightarrow> m256i option" where
  "v2_block a b row_start x acc = do {
     x4 \<leftarrow> cint (x * 4);
     i \<leftarrow> cint (row_start + x4);
     va \<leftarrow> mm256_loadu_si256 a i;
     vb \<leftarrow> mm256_loadu_si256 b i;
     let va_lo = mm256_cvtepu8_epi16 (mm256_castsi256_si128 va);
     let vb_lo = mm256_cvtepu8_epi16 (mm256_castsi256_si128 vb);
     let va_hi = mm256_cvtepu8_epi16 (mm256_extracti128_si256_1 va);
     let vb_hi = mm256_cvtepu8_epi16 (mm256_extracti128_si256_1 vb);
     let diff_lo = mm256_sub_epi16 va_lo vb_lo;
     let diff_hi = mm256_sub_epi16 va_hi vb_hi;
     let sq_lo = mm256_madd_epi16 diff_lo diff_lo;
     let sq_hi = mm256_madd_epi16 diff_hi diff_hi;
     let sq_lo_arr = store_int32 sq_lo;
     let sq_hi_arr = store_int32 sq_hi;
     (_, pixel_sum) \<leftarrow>
       for_lt 0 4 1
         (\<lambda>p pixel_sum. do {
            p2 \<leftarrow> cint (p * 2);
            t \<leftarrow> cint (pixel_sum + sq_lo_arr ! nat p2);
            cint (t + sq_hi_arr ! nat p2)
          })
         0;
     (_, pixel_sum) \<leftarrow>
       for_lt 0 8 1
         (\<lambda>p pixel_sum. do {
            base \<leftarrow> cint (p * 4);
            ib \<leftarrow> cint (i + base);
            idx \<leftarrow> cint (ib + 2);
            ai \<leftarrow> rd a idx;
            bi \<leftarrow> rd b idx;
            db \<leftarrow> cint (uint ai - uint bi);
            dd \<leftarrow> cint (db * db);
            cint (pixel_sum + dd)
          })
         pixel_sum;
     let vsum = mm256_set1_epi32 pixel_sum;
     Some (mm256_add_epi32 acc vsum)
   }"

definition v2_tail_pixel :: "buffer \<Rightarrow> buffer \<Rightarrow> int \<Rightarrow> int \<Rightarrow> m256i \<Rightarrow> m256i option" where
  "v2_tail_pixel a b row_start x acc = do {
     x4 \<leftarrow> cint (x * 4);
     i \<leftarrow> cint (row_start + x4);
     v \<leftarrow> pixel_ssd a b i;
     let vsum = mm256_set1_epi32 v;
     Some (mm256_add_epi32 acc vsum)
   }"

definition ssd_avx2_v2 :: "buffer \<Rightarrow> buffer \<Rightarrow> int \<Rightarrow> int \<Rightarrow> int \<Rightarrow> int option" where
  "ssd_avx2_v2 a b stride width height = do {
     (_, acc) \<leftarrow>
       for_lt 0 height 1
         (\<lambda>y acc. do {
            row_start \<leftarrow> cint (y * stride);
            lim \<leftarrow> cint (width - 8);
            (x, acc) \<leftarrow> for_le 0 lim 8 (v2_block a b row_start) acc;
            (_, acc) \<leftarrow> for_lt x width 1 (v2_tail_pixel a b row_start) acc;
            Some acc
          })
         mm256_setzero_si256;
     let acc_arr = store_int32 acc;
     (_, total) \<leftarrow> for_lt 0 8 1 (\<lambda>i total. cint64 (total + acc_arr ! nat i)) 0;
     Some (double_of_int total)
   }"

subsection \<open>The specified sum and the valid inputs\<close>

text \<open>
  The squared difference of the samples at byte offset \<open>i\<close>, and the sum of the three of
  the pixel that starts at \<open>i\<close> (R, G and B; the alpha sample is at \<open>i + 3\<close>).
\<close>

definition sq_diff :: "buffer \<Rightarrow> buffer \<Rightarrow> nat \<Rightarrow> int" where
  "sq_diff a b i = (uint (a ! i) - uint (b ! i))\<^sup>2"

definition rgb_ssd :: "buffer \<Rightarrow> buffer \<Rightarrow> nat \<Rightarrow> int" where
  "rgb_ssd a b i = sq_diff a b i + sq_diff a b (i + 1) + sq_diff a b (i + 2)"

text \<open>The sum over the \<open>width\<close> pixels of the row that starts at byte \<open>row_start\<close>.\<close>

definition row_sum :: "buffer \<Rightarrow> buffer \<Rightarrow> nat \<Rightarrow> nat \<Rightarrow> int" where
  "row_sum a b row_start width = (\<Sum>x<width. rgb_ssd a b (row_start + x * 4))"

text \<open>The sum over all pixels, pixel \<open>x\<close> of row \<open>y\<close> at byte offset \<open>y * stride + x * 4\<close>.\<close>

definition ssd_sum :: "buffer \<Rightarrow> buffer \<Rightarrow> nat \<Rightarrow> nat \<Rightarrow> nat \<Rightarrow> int" where
  "ssd_sum a b stride width height = (\<Sum>y<height. row_sum a b (y * stride) width)"

text \<open>
  A valid input, as the interface states it: a positive width and height, a stride of at
  least four bytes a pixel, and two buffers of at least \<open>stride * height\<close> bytes.
\<close>

definition valid_input :: "buffer \<Rightarrow> buffer \<Rightarrow> int \<Rightarrow> int \<Rightarrow> int \<Rightarrow> bool" where
  "valid_input a b stride width height \<longleftrightarrow>
     0 < width \<and> 0 < height \<and> width * 4 \<le> stride \<and>
     stride * height \<le> int (length a) \<and> stride * height \<le> int (length b)"

text \<open>The same with no rows allowed, as for the tiles of an image.\<close>

definition in_range :: "buffer \<Rightarrow> buffer \<Rightarrow> int \<Rightarrow> int \<Rightarrow> int \<Rightarrow> bool" where
  "in_range a b stride width height \<longleftrightarrow>
     0 < width \<and> 0 \<le> height \<and> width * 4 \<le> stride \<and>
     stride * height \<le> int (length a) \<and> stride * height \<le> int (length b)"

text \<open>
  The kernels compute byte offsets in \<^verbatim>\<open>int\<close>. The greatest offset that \<^verbatim>\<open>ssd_scalar\<close>
  computes is that of the blue sample of the last pixel of the last row, the last sample
  it reads; \<^verbatim>\<open>ssd_avx2\<close> and \<^verbatim>\<open>ssd_avx2_v2\<close> compute none beyond it.
\<close>

definition last_offset :: "int \<Rightarrow> int \<Rightarrow> int \<Rightarrow> int" where
  "last_offset stride width height = (height - 1) * stride + (width - 1) * 4 + 2"

definition offsets_fit :: "int \<Rightarrow> int \<Rightarrow> int \<Rightarrow> bool" where
  "offsets_fit stride width height \<longleftrightarrow> last_offset stride width height \<le> INT_MAX"

text \<open>
  \<^verbatim>\<open>ssd_avx2_simple\<close> also computes the offsets of the alpha samples of every batch. The
  last of them is one beyond \<open>last_offset\<close>, when the row ends with a batch.
\<close>

definition batch_offsets_fit :: "int \<Rightarrow> int \<Rightarrow> int \<Rightarrow> bool" where
  "batch_offsets_fit stride width height \<longleftrightarrow>
     last_offset stride width height + (if width mod 8 = 0 then 1 else 0) \<le> INT_MAX"

text \<open>
  The sums of the squared differences of each two adjacent bytes of two byte lists: what
  the multiply-add leaves in the 32-bit lanes.
\<close>

fun sq_pairs :: "byte list \<Rightarrow> byte list \<Rightarrow> int list" where
  "sq_pairs (a0 # a1 # as) (b0 # b1 # bs) =
     ((uint a0 - uint b0)\<^sup>2 + (uint a1 - uint b1)\<^sup>2) # sq_pairs as bs"
| "sq_pairs _ _ = []"

section \<open>Basic facts\<close>

lemma bit_width_le: "0 \<le> n \<Longrightarrow> n < 2 ^ k \<Longrightarrow> bit_width n \<le> k"
proof (induction k arbitrary: n)
  case 0
  then show ?case by (simp add: bit_width.simps)
next
  case (Suc k)
  have "n div 2 < 2 ^ k" using Suc.prems by simp
  moreover have "0 \<le> n div 2" using Suc.prems by simp
  ultimately have "bit_width (n div 2) \<le> k" using Suc.IH by blast
  then show ?case by (subst bit_width.simps) simp
qed

lemma double_of_int_exact: "\<bar>n\<bar> < 2 ^ 53 \<Longrightarrow> double_of_int n = n"
  using bit_width_le [of "\<bar>n\<bar>" 53] by (simp add: double_of_int_def Let_def)

lemma cint_Some: "- 2147483648 \<le> v \<Longrightarrow> v \<le> 2147483647 \<Longrightarrow> cint v = Some v"
  by (simp add: cint_def INT_MAX_def)

lemma cint64_Some: "- (2 ^ 63) \<le> v \<Longrightarrow> v < 2 ^ 63 \<Longrightarrow> cint64 v = Some v"
  by (simp add: cint64_def)

lemma rd_Some: "0 \<le> i \<Longrightarrow> i < int (length a) \<Longrightarrow> rd a i = Some (a ! nat i)"
  by (simp add: rd_def)

lemma for_lt_steps:
  assumes pos: "0 < step"
    and body: "\<And>n. n < N \<Longrightarrow> body (x0 + int n * step) (f n) = Some (f (Suc n))"
    and stop: "bound \<le> x0 + int N * step"
    and run: "\<And>n. n < N \<Longrightarrow> x0 + int n * step < bound"
    and m: "m \<le> N"
  shows "for_lt (x0 + int m * step) bound step body (f m) = Some (x0 + int N * step, f N)"
  using m
proof (induction "N - m" arbitrary: m)
  case 0
  then have "m = N" by simp
  then show ?case using stop by (subst for_lt.simps) simp
next
  case (Suc d)
  then have lt: "m < N" by simp
  have next_step: "for_lt (x0 + int (Suc m) * step) bound step body (f (Suc m))
      = Some (x0 + int N * step, f N)"
  proof (rule Suc.hyps(1))
    show "d = N - Suc m" using Suc.hyps(2) by linarith
    show "Suc m \<le> N" using lt by linarith
  qed
  have eq: "x0 + int m * step + step = x0 + int (Suc m) * step"
    by (simp add: algebra_simps)
  show ?case
    using run [OF lt] pos body [OF lt] next_step
    by (subst for_lt.simps) (simp only: eq if_True if_False option.case not_le [symmetric] simp_thms)
qed

lemma for_lt_run:
  assumes "0 < step"
    and "\<And>n. n < N \<Longrightarrow> body (x0 + int n * step) (f n) = Some (f (Suc n))"
    and "bound \<le> x0 + int N * step"
    and "\<And>n. n < N \<Longrightarrow> x0 + int n * step < bound"
  shows "for_lt x0 bound step body (f 0) = Some (x0 + int N * step, f N)"
  using for_lt_steps [where m = 0 and f = f and N = N and body = body and step = step
      and bound = bound and ?x0.0 = x0] assms by simp

lemma byte_range: "0 \<le> uint (x :: byte)" "uint (x :: byte) \<le> 255"
  using uint_lt2p [of x] by simp_all

lemma sq_diff_bounds: "0 \<le> sq_diff a b i" "sq_diff a b i \<le> 65025"
proof -
  have "\<bar>uint (a ! i) - uint (b ! i)\<bar> \<le> 255"
    using byte_range [of "a ! i"] byte_range [of "b ! i"] by linarith
  then have "(uint (a ! i) - uint (b ! i))\<^sup>2 \<le> 255\<^sup>2"
    by (metis abs_le_square_iff abs_numeral)
  then show "sq_diff a b i \<le> 65025" by (simp add: sq_diff_def)
  show "0 \<le> sq_diff a b i" by (simp add: sq_diff_def)
qed

lemma rgb_ssd_bounds: "0 \<le> rgb_ssd a b i" "rgb_ssd a b i \<le> 195075"
  using sq_diff_bounds [of a b i] sq_diff_bounds [of a b "i + 1"] sq_diff_bounds [of a b "i + 2"]
  by (simp_all add: rgb_ssd_def)

lemma pixel_ssd_Some:
  assumes "0 \<le> i" "i + 2 < int (length a)" "i + 2 < int (length b)" "i + 2 \<le> INT_MAX"
  shows "pixel_ssd a b i = Some (rgb_ssd a b (nat i))"
proof -
  have d: "- 2147483648 \<le> uint x - uint y \<and> uint x - uint y \<le> 2147483647" for x y :: byte
    using byte_range [of x] byte_range [of y] by linarith
  have n: "nat (i + 1) = nat i + 1" "nat (i + 2) = nat i + 2"
    using assms(1) by simp_all
  have s: "cint (rgb_ssd a b (nat i)) = Some (rgb_ssd a b (nat i))"
    using rgb_ssd_bounds [of a b "nat i"] by (simp add: cint_def INT_MAX_def)
  show ?thesis
    using assms s
    by (simp add: pixel_ssd_def cint_Some rd_Some d n INT_MAX_def rgb_ssd_def sq_diff_def power2_eq_square)
qed

section \<open>The scalar kernel computes the specified sum\<close>

lemma row_sum_bounds: "0 \<le> row_sum a b rs w" "row_sum a b rs w \<le> 195075 * int w"
proof -
  show "0 \<le> row_sum a b rs w"
    unfolding row_sum_def by (rule sum_nonneg) (simp add: rgb_ssd_bounds)
  have "row_sum a b rs w \<le> (\<Sum>x<w. 195075)"
    unfolding row_sum_def by (rule sum_mono) (simp add: rgb_ssd_bounds)
  then show "row_sum a b rs w \<le> 195075 * int w" by simp
qed

lemma ssd_sum_bounds:
  "0 \<le> ssd_sum a b stride w h" "ssd_sum a b stride w h \<le> 195075 * int w * int h"
proof -
  show "0 \<le> ssd_sum a b stride w h"
    unfolding ssd_sum_def by (rule sum_nonneg) (simp add: row_sum_bounds)
  have "ssd_sum a b stride w h \<le> (\<Sum>y<h. 195075 * int w)"
    unfolding ssd_sum_def by (rule sum_mono) (simp add: row_sum_bounds)
  then show "ssd_sum a b stride w h \<le> 195075 * int w * int h" by (simp add: mult.commute)
qed

lemma row_fits:
  assumes "0 \<le> (stride :: int)" "y < h"
  shows "int y * stride + stride \<le> stride * int h"
proof -
  have "(int y + 1) * stride \<le> int h * stride"
    using assms by (intro mult_right_mono) simp_all
  then show ?thesis by (simp add: algebra_simps)
qed

lemma row_start_le:
  assumes "0 \<le> (stride :: int)" "y < h"
  shows "int y * stride \<le> (int h - 1) * stride"
  using assms by (intro mult_right_mono) simp_all

lemma pixels_fit:
  assumes "0 < w" "0 \<le> h" "w * 4 \<le> stride" "(h - 1) * stride + w * 4 \<le> INT_MAX + 2"
  shows "195075 * w * h < (2 :: int) ^ 47"
proof (cases "h = 0")
  case True
  then show ?thesis by simp
next
  case False
  then have h: "0 \<le> h - 1" using assms(2) by simp
  have "w * 4 * (h - 1) \<le> stride * (h - 1)"
    using assms(3) h by (rule mult_right_mono)
  then have "w * 4 * (h - 1) + w * 4 \<le> INT_MAX + 2"
    using assms(4) by (simp add: mult.commute)
  then have "4 * (w * h) \<le> 2147483649"
    by (simp add: INT_MAX_def algebra_simps)
  then have "w * h \<le> 536870912" by linarith
  then have "195075 * (w * h) < 140737488355328" by linarith
  moreover have "(2 :: int) ^ 47 = 140737488355328" by simp
  ultimately show ?thesis by (simp only: mult.assoc)
qed

lemma offsets_fit_limit:
  "offsets_fit stride width height \<longleftrightarrow> (height - 1) * stride + width * 4 \<le> INT_MAX + 2"
  by (auto simp: offsets_fit_def last_offset_def algebra_simps)

lemma batch_offsets_fit_limit:
  "batch_offsets_fit stride width height \<longleftrightarrow>
   (height - 1) * stride + width * 4 + (if width mod 8 = 0 then 1 else 0) \<le> INT_MAX + 2"
  by (auto simp: batch_offsets_fit_def last_offset_def algebra_simps)

lemma batch_offsets_fit_offsets_fit:
  "batch_offsets_fit stride width height \<Longrightarrow> offsets_fit stride width height"
  by (auto simp: batch_offsets_fit_def offsets_fit_def split: if_splits)

lemma scalar_row:
  assumes rs: "0 \<le> rs" "rs + 4 * int w \<le> INT_MAX + 2"
    and len: "rs + 4 * int w \<le> int (length a)" "rs + 4 * int w \<le> int (length b)"
    and s: "0 \<le> s" "s + 195075 * int w < 2 ^ 53"
  shows "for_lt 0 (int w) 1
           (\<lambda>x sum. do {
              x4 \<leftarrow> cint (x * 4);
              i \<leftarrow> cint (rs + x4);
              v \<leftarrow> pixel_ssd a b i;
              Some (dadd sum (double_of_int v))
            })
           s
         = Some (int w, s + row_sum a b (nat rs) w)"
proof -
  let ?body = "\<lambda>x sum. do {
              x4 \<leftarrow> cint (x * 4);
              i \<leftarrow> cint (rs + x4);
              v \<leftarrow> pixel_ssd a b i;
              Some (dadd sum (double_of_int v))
            }"
  let ?f = "\<lambda>n. s + row_sum a b (nat rs) n"
  have step: "?body (0 + int n * 1) (?f n) = Some (?f (Suc n))" if n: "n < w" for n
  proof -
    have i: "0 \<le> rs + int n * 4" "rs + int n * 4 + 2 < int (length a)"
      "rs + int n * 4 + 2 < int (length b)" "rs + int n * 4 + 2 \<le> INT_MAX"
      using rs len n by simp_all
    have c1: "cint (int n * 4) = Some (int n * 4)"
      using rs n by (intro cint_Some) (simp_all add: INT_MAX_def)
    have c2: "cint (rs + int n * 4) = Some (rs + int n * 4)"
      using rs n by (intro cint_Some) (simp_all add: INT_MAX_def)
    have p: "pixel_ssd a b (rs + int n * 4) = Some (rgb_ssd a b (nat rs + n * 4))"
      using pixel_ssd_Some [OF i] rs(1) by (simp add: nat_add_distrib nat_mult_distrib)
    let ?v = "rgb_ssd a b (nat rs + n * 4)"
    have v: "0 \<le> ?v" "?v \<le> 195075" by (rule rgb_ssd_bounds)+
    have r: "0 \<le> row_sum a b (nat rs) n" "row_sum a b (nat rs) n \<le> 195075 * int n"
      by (rule row_sum_bounds)+
    have d1: "double_of_int ?v = ?v"
      using v by (intro double_of_int_exact) simp
    have d2: "dadd (?f n) ?v = ?f n + ?v"
      unfolding dadd_def using v r s n by (intro double_of_int_exact) simp
    show ?thesis
      using d2 by (simp add: c1 c2 p d1 row_sum_def)
  qed
  have "for_lt 0 (int w) 1 ?body (?f 0) = Some (0 + int w * 1, ?f w)"
    by (rule for_lt_run [where f = ?f]) (use step in simp_all)
  then show ?thesis by (simp add: row_sum_def)
qed

lemma scalar_correct:
  assumes "in_range a b stride width height" and "offsets_fit stride width height"
  shows "ssd_scalar a b stride width height
         = Some (ssd_sum a b (nat stride) (nat width) (nat height))"
proof -
  define w h where "w = nat width" and "h = nat height"
  have wh: "width = int w" "height = int h" "0 \<le> stride" "int w * 4 \<le> stride" "0 < w"
    and len: "stride * int h \<le> int (length a)" "stride * int h \<le> int (length b)"
    using assms(1) by (simp_all add: in_range_def w_def h_def)
  have fit: "(int h - 1) * stride + int w * 4 \<le> INT_MAX + 2"
    using assms(2) wh by (simp add: offsets_fit_limit)
  have big: "195075 * int w * int h < 2 ^ 47"
    using pixels_fit [of "int w" "int h" stride] wh fit by simp
  let ?row = "\<lambda>y sum. do {
             row_start \<leftarrow> cint (y * stride);
             map_option snd
               (for_lt 0 (int w) 1
                  (\<lambda>x sum. do {
                     x4 \<leftarrow> cint (x * 4);
                     i \<leftarrow> cint (row_start + x4);
                     v \<leftarrow> pixel_ssd a b i;
                     Some (dadd sum (double_of_int v))
                   })
                  sum)
           }"
  let ?f = "\<lambda>n. ssd_sum a b (nat stride) w n"
  have step: "?row (0 + int n * 1) (?f n) = Some (?f (Suc n))" if n: "n < h" for n
  proof -
    have fitn: "int n * stride + stride \<le> stride * int h"
      using row_fits [OF wh(3) n] .
    have rs2: "int n * stride + 4 * int w \<le> INT_MAX + 2"
      using fit row_start_le [OF wh(3) n] by linarith
    have rs: "0 \<le> int n * stride" "int n * stride + 4 * int w \<le> INT_MAX + 2"
      "int n * stride + 4 * int w \<le> int (length a)"
      "int n * stride + 4 * int w \<le> int (length b)"
      using wh len fitn rs2 by simp_all
    have c: "cint (int n * stride) = Some (int n * stride)"
      using rs wh(5) by (intro cint_Some) (simp_all add: INT_MAX_def)
    have "ssd_sum a b (nat stride) w n \<le> 195075 * int w * int n" by (rule ssd_sum_bounds)
    moreover have "195075 * int w * int n + 195075 * int w \<le> 195075 * int w * int h"
    proof -
      have "195075 * int w * (int n + 1) \<le> 195075 * int w * int h"
        using n by (intro mult_left_mono) simp_all
      then show ?thesis by (simp add: algebra_simps)
    qed
    ultimately have s: "0 \<le> ?f n" "?f n + 195075 * int w < 2 ^ 53"
      using big ssd_sum_bounds(1) [of a b "nat stride" w n] by simp_all
    have nat_rs: "nat (int n * stride) = n * nat stride"
      using wh(3) by (simp add: nat_mult_distrib)
    show ?thesis
      using scalar_row [OF rs s] by (simp add: c nat_rs ssd_sum_def)
  qed
  have "for_lt 0 (int h) 1 ?row (?f 0) = Some (0 + int h * 1, ?f h)"
    by (rule for_lt_run [where f = ?f]) (use step in simp_all)
  then show ?thesis
    by (simp add: ssd_scalar_def wh ssd_sum_def w_def [symmetric] h_def [symmetric])
qed

lemma valid_in_range: "valid_input a b stride width height \<Longrightarrow> in_range a b stride width height"
  by (simp add: valid_input_def in_range_def)

section \<open>Lanes\<close>

lemma lane16_bytes: "lane16 (ucast w) (ucast (drop_bit 8 w)) = w"
  unfolding lane16_def by (rule bit_word_eqI) (auto simp: bit_simps)

lemma lane32_bytes:
  "lane32 (ucast w) (ucast (drop_bit 8 w)) (ucast (drop_bit 16 w)) (ucast (drop_bit 24 w)) = w"
  unfolding lane32_def
  apply (rule bit_word_eqI)
  subgoal for n
    by (cases "n < 8"; cases "n < 16"; cases "n < 24") (auto simp: bit_simps)
  done

lemma epi16_of_bytes: "epi16_of (bytes_of_epi16 ws) = ws"
  by (induction ws) (simp_all add: lane16_bytes)

lemma epi32_of_bytes: "epi32_of (bytes_of_epi32 ws) = ws"
  by (induction ws) (simp_all add: lane32_bytes)

lemma epi16_of_interleave_zero:
  "length xs \<le> n \<Longrightarrow> epi16_of (interleave xs (replicate n 0) @ rest) = map ucast xs @ epi16_of rest"
proof (induction xs arbitrary: n)
  case Nil
  then show ?case by (cases n) simp_all
next
  case (Cons x xs)
  then obtain n' where n: "n = Suc n'" by (cases n) simp_all
  with Cons show ?case by (simp add: lane16_def)
qed

lemma epi16_of_unpacklo:
  "epi16_of (mm256_unpacklo_epi8 x mm256_setzero_si256)
   = map ucast (take 8 x @ take 8 (drop 16 x))"
  using epi16_of_interleave_zero [of "take 8 x" 8 "interleave (take 8 (drop 16 x)) (replicate 8 0)"]
    epi16_of_interleave_zero [of "take 8 (drop 16 x)" 8 "[]"]
  by (simp add: mm256_unpacklo_epi8_def mm256_setzero_si256_def)

lemma epi16_of_unpackhi:
  "epi16_of (mm256_unpackhi_epi8 x mm256_setzero_si256)
   = map ucast (take 8 (drop 8 x) @ take 8 (drop 24 x))"
  using epi16_of_interleave_zero [of "take 8 (drop 8 x)" 8 "interleave (take 8 (drop 24 x)) (replicate 8 0)"]
    epi16_of_interleave_zero [of "take 8 (drop 24 x)" 8 "[]"]
  by (simp add: mm256_unpackhi_epi8_def mm256_setzero_si256_def)

lemma epi16_of_cvtepu8: "epi16_of (mm256_cvtepu8_epi16 x) = map ucast x"
  by (simp add: mm256_cvtepu8_epi16_def epi16_of_bytes)

lemma sint_small16: "- 32768 \<le> k \<Longrightarrow> k \<le> 32767 \<Longrightarrow> sint (word_of_int k :: 16 word) = k"
  by (simp add: sint_sbintrunc' signed_take_bit_int_eq_self)

lemma sint_diff16: "sint ((ucast (x :: byte) :: 16 word) - ucast (y :: byte)) = uint x - uint y"
proof -
  have eq: "(ucast x :: 16 word) - ucast y = word_of_int (uint x - uint y)"
    by (simp add: word_of_int_uint [symmetric] wi_hom_sub del: word_of_int_uint)
  have "sint (word_of_int (uint x - uint y) :: 16 word) = uint x - uint y"
    using byte_range [of x] byte_range [of y] by (intro sint_small16) linarith+
  then show ?thesis unfolding eq .
qed

lemma sint_small32: "- 2147483648 \<le> k \<Longrightarrow> k \<le> 2147483647 \<Longrightarrow> sint (word_of_int k :: 32 word) = k"
  by (simp add: sint_sbintrunc' signed_take_bit_int_eq_self)

lemma sq_byte_bounds: "0 \<le> (uint (x :: byte) - uint (y :: byte))\<^sup>2" "(uint (x :: byte) - uint (y :: byte))\<^sup>2 \<le> 65025"
proof -
  have "\<bar>uint x - uint y\<bar> \<le> 255"
    using byte_range [of x] byte_range [of y] by linarith
  then have "(uint x - uint y)\<^sup>2 \<le> 255\<^sup>2"
    by (metis abs_le_square_iff abs_numeral)
  then show "(uint x - uint y)\<^sup>2 \<le> 65025" by simp
  show "0 \<le> (uint x - uint y)\<^sup>2" by simp
qed

lemma madd_squares:
  "map sint (madd_pairs (map2 (-) (map ucast A) (map ucast B)) (map2 (-) (map ucast A) (map ucast B)))
   = sq_pairs A B"
proof (induction A B rule: sq_pairs.induct)
  case (1 a0 a1 as b0 b1 bs)
  define s0 s1 where "s0 = (uint a0 - uint b0) * (uint a0 - uint b0)"
    and "s1 = (uint a1 - uint b1) * (uint a1 - uint b1)"
  have "0 \<le> s0" "s0 \<le> 65025" "0 \<le> s1" "s1 \<le> 65025"
    using sq_byte_bounds [of a0 b0] sq_byte_bounds [of a1 b1]
    by (simp_all add: s0_def s1_def power2_eq_square)
  then have "sint (word_of_int (s0 + s1) :: 32 word) = s0 + s1"
    by (intro sint_small32) linarith+
  with 1 show ?case by (simp add: sint_diff16 power2_eq_square s0_def s1_def)
qed (simp_all add: zip_Cons1 zip_Cons split: list.splits)

lemma sq_pairs_length: "length (sq_pairs A B) = min (length A) (length B) div 2"
  by (induction A B rule: sq_pairs.induct) simp_all

lemma sq_pairs_nth:
  "k < min (length A) (length B) div 2 \<Longrightarrow>
   sq_pairs A B ! k = sq_diff A B (2 * k) + sq_diff A B (2 * k + 1)"
proof (induction A B arbitrary: k rule: sq_pairs.induct)
  case (1 a0 a1 as b0 b1 bs)
  show ?case
  proof (cases k)
    case 0
    then show ?thesis by (simp add: sq_diff_def)
  next
    case (Suc k')
    then have "k' < min (length as) (length bs) div 2" using "1.prems" by simp
    then have "sq_pairs as bs ! k' = sq_diff as bs (2 * k') + sq_diff as bs (2 * k' + 1)"
      by (rule "1.IH")
    then show ?thesis using Suc by (simp add: sq_diff_def)
  qed
qed simp_all

lemma sq_pairs_bounds:
  assumes "k < min (length A) (length B) div 2"
  shows "0 \<le> sq_pairs A B ! k" "sq_pairs A B ! k \<le> 130050"
  using sq_pairs_nth [OF assms] sq_diff_bounds [of A B "2 * k"] sq_diff_bounds [of A B "2 * k + 1"]
  by simp_all

lemma sq_diff_window:
  assumes "j < n" "m + n \<le> length a" "m + n \<le> length b"
  shows "sq_diff (take n (drop m a)) (take n (drop m b)) j = sq_diff a b (m + j)"
  using assms by (simp add: sq_diff_def)

lemma rgb_ssd_window:
  assumes "j + 2 < n" "m + n \<le> length a" "m + n \<le> length b"
  shows "rgb_ssd (take n (drop m a)) (take n (drop m b)) j = rgb_ssd a b (m + j)"
  using assms by (simp add: rgb_ssd_def sq_diff_window add.assoc)

lemma row_sum_append:
  "row_sum a b rs (m + k) = row_sum a b rs m + row_sum a b (rs + m * 4) k"
  by (induction k) (simp_all add: row_sum_def algebra_simps)

lemma store_lanes_unpacklo:
  "store_int32
     (mm256_madd_epi16
        (mm256_sub_epi16 (mm256_unpacklo_epi8 va mm256_setzero_si256)
           (mm256_unpacklo_epi8 vb mm256_setzero_si256))
        (mm256_sub_epi16 (mm256_unpacklo_epi8 va mm256_setzero_si256)
           (mm256_unpacklo_epi8 vb mm256_setzero_si256)))
   = sq_pairs (take 8 va @ take 8 (drop 16 va)) (take 8 vb @ take 8 (drop 16 vb))"
  by (simp only: store_int32_def mm256_madd_epi16_def mm256_sub_epi16_def epi32_of_bytes
      epi16_of_bytes epi16_of_unpacklo madd_squares)

lemma store_lanes_unpackhi:
  "store_int32
     (mm256_madd_epi16
        (mm256_sub_epi16 (mm256_unpackhi_epi8 va mm256_setzero_si256)
           (mm256_unpackhi_epi8 vb mm256_setzero_si256))
        (mm256_sub_epi16 (mm256_unpackhi_epi8 va mm256_setzero_si256)
           (mm256_unpackhi_epi8 vb mm256_setzero_si256)))
   = sq_pairs (take 8 (drop 8 va) @ take 8 (drop 24 va)) (take 8 (drop 8 vb) @ take 8 (drop 24 vb))"
  by (simp only: store_int32_def mm256_madd_epi16_def mm256_sub_epi16_def epi32_of_bytes
      epi16_of_bytes epi16_of_unpackhi madd_squares)

lemma store_lanes_cvtepu8:
  "store_int32
     (mm256_madd_epi16
        (mm256_sub_epi16 (mm256_cvtepu8_epi16 xa) (mm256_cvtepu8_epi16 xb))
        (mm256_sub_epi16 (mm256_cvtepu8_epi16 xa) (mm256_cvtepu8_epi16 xb)))
   = sq_pairs xa xb"
  by (simp only: store_int32_def mm256_madd_epi16_def mm256_sub_epi16_def epi32_of_bytes
      epi16_of_bytes epi16_of_cvtepu8 madd_squares)

section \<open>The loops of the vectorised kernels\<close>

lemma tail_row:
  assumes rs: "0 \<le> rs" "rs + 4 * int w \<le> INT_MAX + 2"
    and len: "rs + 4 * int w \<le> int (length a)" "rs + 4 * int w \<le> int (length b)"
    and x0: "x0 \<le> w"
    and t: "0 \<le> t" "t + 195075 * int (w - x0) < 2 ^ 62"
  shows "for_lt (int x0) (int w) 1 (tail_pixel a b rs) t
         = Some (int w, t + row_sum a b (nat rs + x0 * 4) (w - x0))"
proof -
  let ?f = "\<lambda>n. t + row_sum a b (nat rs + x0 * 4) n"
  have step: "tail_pixel a b rs (int x0 + int n * 1) (?f n) = Some (?f (Suc n))"
    if n: "n < w - x0" for n
  proof -
    let ?x = "int x0 + int n"
    have xw: "?x < int w" using n by linarith
    have i: "0 \<le> rs + ?x * 4" "rs + ?x * 4 + 2 < int (length a)"
      "rs + ?x * 4 + 2 < int (length b)" "rs + ?x * 4 + 2 \<le> INT_MAX"
      using rs len xw by simp_all
    have c1: "cint (?x * 4) = Some (?x * 4)"
      using rs xw by (intro cint_Some) (simp_all add: INT_MAX_def)
    have c2: "cint (rs + ?x * 4) = Some (rs + ?x * 4)"
      using rs xw by (intro cint_Some) (simp_all add: INT_MAX_def)
    have "nat (rs + ?x * 4) = nat rs + x0 * 4 + n * 4"
      using rs(1) by (simp add: nat_add_distrib nat_mult_distrib)
    then have p: "pixel_ssd a b (rs + ?x * 4) = Some (rgb_ssd a b (nat rs + x0 * 4 + n * 4))"
      using pixel_ssd_Some [OF i] by simp
    let ?v = "rgb_ssd a b (nat rs + x0 * 4 + n * 4)"
    have v: "0 \<le> ?v" "?v \<le> 195075" by (rule rgb_ssd_bounds)+
    have r: "0 \<le> row_sum a b (nat rs + x0 * 4) n" "row_sum a b (nat rs + x0 * 4) n \<le> 195075 * int n"
      by (rule row_sum_bounds)+
    have "195075 * (int n + 1) \<le> 195075 * int (w - x0)" using n by simp
    then have c3: "cint64 (?f n + ?v) = Some (?f n + ?v)"
      using v r t by (intro cint64_Some) simp_all
    show ?thesis
      using c1 c2 p c3 by (simp add: tail_pixel_def row_sum_def)
  qed
  have "for_lt (int x0) (int w) 1 (tail_pixel a b rs) (?f 0)
        = Some (int x0 + int (w - x0) * 1, ?f (w - x0))"
    by (rule for_lt_run [where f = ?f]) (use step x0 in simp_all)
  then show ?thesis using x0 by (simp add: row_sum_def)
qed

lemma load_Some:
  "0 \<le> i \<Longrightarrow> i + 32 \<le> int (length a) \<Longrightarrow> mm256_loadu_si256 a i = Some (take 32 (drop (nat i) a))"
  by (simp add: mm256_loadu_si256_def)

lemma sum_upto8:
  "(\<Sum>k<(8::nat). f k) = f 0 + f 1 + f 2 + f 3 + f 4 + f 5 + f 6 + (f 7 :: int)"
proof -
  have "{..<8::nat} = {0, 1, 2, 3, 4, 5, 6, 7}" by auto
  then show ?thesis by simp
qed

lemma sum_upto4:
  "(\<Sum>k<(4::nat). f k) = f 0 + f 1 + f 2 + (f 3 :: int)"
proof -
  have "{..<4::nat} = {0, 1, 2, 3}" by auto
  then show ?thesis by simp
qed

lemma sum_le_count:
  assumes "\<And>k. k < n \<Longrightarrow> 0 \<le> f k \<and> f k \<le> (c :: int)"
  shows "0 \<le> (\<Sum>k<n. f k)" "(\<Sum>k<n. f k) \<le> c * int n"
proof -
  show "0 \<le> (\<Sum>k<n. f k)" by (rule sum_nonneg) (use assms in simp)
  have "(\<Sum>k<n. f k) \<le> (\<Sum>k<n. c)" by (rule sum_mono) (use assms in simp)
  then show "(\<Sum>k<n. f k) \<le> c * int n" by (simp add: mult.commute)
qed

lemma sum_int32_Some:
  assumes "\<forall>x\<in>set xs. 0 \<le> x \<and> x \<le> c" "0 \<le> v" "v + c * int (length xs) \<le> INT_MAX"
  shows "sum_int32 v xs = Some (v + sum_list xs)"
  using assms
proof (induction xs arbitrary: v)
  case Nil
  then show ?case by simp
next
  case (Cons x xs)
  have x: "0 \<le> x" "x \<le> c" using Cons.prems(1) by simp_all
  have le: "v + x + c * int (length xs) \<le> INT_MAX"
    using Cons.prems(3) x by (simp add: algebra_simps)
  have nn: "0 \<le> c * int (length xs)" using x by simp
  have "v + x \<le> INT_MAX" using le nn by linarith
  then have c: "cint (v + x) = Some (v + x)"
    using x Cons.prems(2) by (intro cint_Some) (simp_all add: INT_MAX_def)
  have "sum_int32 (v + x) xs = Some (v + x + sum_list xs)"
    using Cons.prems(1) Cons.prems(2) x le by (intro Cons.IH) simp_all
  then show ?case by (simp add: c add.assoc)
qed

lemma acc_lanes_loop:
  assumes lo: "\<And>k. k < 8 \<Longrightarrow> 0 \<le> lo ! k \<and> lo ! k \<le> 130050"
    and hi: "\<And>k. k < 8 \<Longrightarrow> 0 \<le> hi ! k \<and> hi ! k \<le> 130050"
    and t: "0 \<le> t0" "t0 < 2 ^ 62"
  shows "for_lt 0 8 1
           (\<lambda>j total_sum. do {
              t \<leftarrow> cint64 (total_sum + lo ! nat j);
              cint64 (t + hi ! nat j)
            })
           t0
         = Some (8, t0 + (\<Sum>k<8. lo ! k + hi ! k))"
proof -
  let ?body = "\<lambda>j total_sum. do {
              t \<leftarrow> cint64 (total_sum + lo ! nat j);
              cint64 (t + hi ! nat j)
            }"
  let ?f = "\<lambda>n. t0 + (\<Sum>k<n. lo ! k + hi ! k)"
  have step: "?body (0 + int n * 1) (?f n) = Some (?f (Suc n))" if n: "n < 8" for n
  proof -
    have b: "0 \<le> lo ! k + hi ! k \<and> lo ! k + hi ! k \<le> 260100" if "k < n" for k
    proof -
      have "k < 8" using that n by simp
      then show ?thesis using lo [of k] hi [of k] by simp
    qed
    have s: "0 \<le> (\<Sum>k<n. lo ! k + hi ! k)" "(\<Sum>k<n. lo ! k + hi ! k) \<le> 260100 * int n"
      using sum_le_count [where f = "\<lambda>k. lo ! k + hi ! k" and c = 260100 and n = n] b
      by simp_all
    have c1: "cint64 (?f n + lo ! n) = Some (?f n + lo ! n)"
      using s t lo [OF n] n by (intro cint64_Some) simp_all
    have c2: "cint64 (?f n + lo ! n + hi ! n) = Some (?f n + lo ! n + hi ! n)"
      using s t lo [OF n] hi [OF n] n by (intro cint64_Some) simp_all
    show ?thesis using c1 c2 by (simp add: add.assoc)
  qed
  have "for_lt 0 8 1 ?body (?f 0) = Some (0 + int 8 * 1, ?f 8)"
    by (rule for_lt_run [where f = ?f]) (use step in simp_all)
  then show ?thesis by simp
qed

lemma row_sum_window:
  assumes "m + 32 \<le> length a" "m + 32 \<le> length b" "n \<le> 8"
  shows "row_sum (take 32 (drop m a)) (take 32 (drop m b)) 0 n = row_sum a b m n"
  unfolding row_sum_def
proof (rule sum.cong)
  fix x assume "x \<in> {..<n}"
  then have "x * 4 + 2 < 32" using assms(3) by simp
  then show "rgb_ssd (take 32 (drop m a)) (take 32 (drop m b)) (0 + x * 4) = rgb_ssd a b (m + x * 4)"
    using rgb_ssd_window [of "x * 4" 32 m a b] assms by simp
qed simp

lemma pixel_bytes_loop:
  assumes "length va = 32" "length vb = 32"
  shows "for_lt 0 8 1
           (\<lambda>p pixel_sum. do {
              idx \<leftarrow> cint (p * 4);
              v \<leftarrow> pixel_ssd va vb idx;
              cint (pixel_sum + v)
            })
           0
         = Some (8, row_sum va vb 0 8)"
proof -
  let ?body = "\<lambda>p pixel_sum. do {
              idx \<leftarrow> cint (p * 4);
              v \<leftarrow> pixel_ssd va vb idx;
              cint (pixel_sum + v)
            }"
  let ?f = "\<lambda>n. row_sum va vb 0 n"
  have step: "?body (0 + int n * 1) (?f n) = Some (?f (Suc n))" if n: "n < 8" for n
  proof -
    have c1: "cint (int n * 4) = Some (int n * 4)"
      using n by (intro cint_Some) simp_all
    have p: "pixel_ssd va vb (int n * 4) = Some (rgb_ssd va vb (n * 4))"
      using pixel_ssd_Some [of "int n * 4" va vb] assms n
      by (simp add: INT_MAX_def nat_mult_distrib)
    have r: "0 \<le> row_sum va vb 0 n" "row_sum va vb 0 n \<le> 195075 * int n"
      by (rule row_sum_bounds)+
    have v: "0 \<le> rgb_ssd va vb (n * 4)" "rgb_ssd va vb (n * 4) \<le> 195075"
      by (rule rgb_ssd_bounds)+
    have c2: "cint (?f n + rgb_ssd va vb (n * 4)) = Some (?f n + rgb_ssd va vb (n * 4))"
      using r v n by (intro cint_Some) simp_all
    show ?thesis using c1 p c2 by (simp add: row_sum_def)
  qed
  have "for_lt 0 8 1 ?body (?f 0) = Some (0 + int 8 * 1, ?f 8)"
    by (rule for_lt_run [where f = ?f]) (use step in simp_all)
  then show ?thesis by (simp add: row_sum_def)
qed

section \<open>The kernels \<^verbatim>\<open>ssd_avx2\<close> and \<^verbatim>\<open>ssd_avx2_simple\<close> compute the specified sum\<close>

lemma avx2_block_Some:
  assumes x: "0 \<le> x" "0 \<le> rs"
    and fit: "rs + x * 4 \<le> INT_MAX"
    and len: "rs + x * 4 + 32 \<le> int (length a)" "rs + x * 4 + 32 \<le> int (length b)"
    and t: "0 \<le> t0" "t0 < 2 ^ 62"
  shows "avx2_block a b rs x t0 = Some (t0 + row_sum a b (nat (rs + x * 4)) 8)"
proof -
  define i where "i = rs + x * 4"
  define va vb where "va = take 32 (drop (nat i) a)" and "vb = take 32 (drop (nat i) b)"
  define lo hi where "lo = sq_pairs (take 8 va @ take 8 (drop 16 va)) (take 8 vb @ take 8 (drop 16 vb))"
    and "hi = sq_pairs (take 8 (drop 8 va) @ take 8 (drop 24 va)) (take 8 (drop 8 vb) @ take 8 (drop 24 vb))"
  have i0: "0 \<le> i" using x by (simp add: i_def)
  have c1: "cint (x * 4) = Some (x * 4)"
    using x fit by (intro cint_Some) (simp_all add: INT_MAX_def)
  have c2: "cint i = Some i"
    unfolding i_def using x fit by (intro cint_Some) (simp_all add: INT_MAX_def)
  have la: "mm256_loadu_si256 a i = Some va" and lb: "mm256_loadu_si256 b i = Some vb"
    unfolding va_def vb_def using i0 len by (simp_all add: load_Some i_def)
  have lens: "length va = 32" "length vb = 32"
    using len i0 by (simp_all add: va_def vb_def i_def)
  have slo: "store_int32
     (mm256_madd_epi16
        (mm256_sub_epi16 (mm256_unpacklo_epi8 va mm256_setzero_si256)
           (mm256_unpacklo_epi8 vb mm256_setzero_si256))
        (mm256_sub_epi16 (mm256_unpacklo_epi8 va mm256_setzero_si256)
           (mm256_unpacklo_epi8 vb mm256_setzero_si256))) = lo"
    unfolding lo_def by (rule store_lanes_unpacklo)
  have shi: "store_int32
     (mm256_madd_epi16
        (mm256_sub_epi16 (mm256_unpackhi_epi8 va mm256_setzero_si256)
           (mm256_unpackhi_epi8 vb mm256_setzero_si256))
        (mm256_sub_epi16 (mm256_unpackhi_epi8 va mm256_setzero_si256)
           (mm256_unpackhi_epi8 vb mm256_setzero_si256))) = hi"
    unfolding hi_def by (rule store_lanes_unpackhi)
  have blo: "0 \<le> lo ! k \<and> lo ! k \<le> 130050" if "k < 8" for k
    unfolding lo_def using sq_pairs_bounds [of k "take 8 va @ take 8 (drop 16 va)" "take 8 vb @ take 8 (drop 16 vb)"]
      that lens by simp
  have bhi: "0 \<le> hi ! k \<and> hi ! k \<le> 130050" if "k < 8" for k
    unfolding hi_def using sq_pairs_bounds [of k "take 8 (drop 8 va) @ take 8 (drop 24 va)" "take 8 (drop 8 vb) @ take 8 (drop 24 vb)"]
      that lens by simp
  let ?S = "\<Sum>k<8. lo ! k + hi ! k"
  have both: "0 \<le> lo ! k + hi ! k \<and> lo ! k + hi ! k \<le> 260100" if "k < 8" for k
    using blo [OF that] bhi [OF that] by simp
  have S: "0 \<le> ?S" "?S \<le> 260100 * 8"
    using sum_le_count [where f = "\<lambda>k. lo ! k + hi ! k" and c = 260100 and n = 8, OF both]
    by simp_all
  have L1: "for_lt 0 8 1
           (\<lambda>j total_sum. do {
              t \<leftarrow> cint64 (total_sum + lo ! nat j);
              cint64 (t + hi ! nat j)
            })
           t0
         = Some (8, t0 + ?S)"
    using blo bhi t by (rule acc_lanes_loop)
  have L2: "for_lt 0 8 1
           (\<lambda>p pixel_sum. do {
              idx \<leftarrow> cint (p * 4);
              v \<leftarrow> pixel_ssd va vb idx;
              cint (pixel_sum + v)
            })
           0
         = Some (8, row_sum a b (nat i) 8)"
    using pixel_bytes_loop [OF lens] row_sum_window [of "nat i" a b 8] len i0
    by (simp add: va_def vb_def i_def)
  have "sum_int32 (lo ! 0)
            [lo ! 1, lo ! 2, lo ! 3, lo ! 4, lo ! 5, lo ! 6, lo ! 7,
             hi ! 0, hi ! 1, hi ! 2, hi ! 3, hi ! 4, hi ! 5, hi ! 6, hi ! 7]
        = Some (lo ! 0 + sum_list [lo ! 1, lo ! 2, lo ! 3, lo ! 4, lo ! 5, lo ! 6, lo ! 7,
             hi ! 0, hi ! 1, hi ! 2, hi ! 3, hi ! 4, hi ! 5, hi ! 6, hi ! 7])"
    using blo [of 0] blo [of 1] blo [of 2] blo [of 3] blo [of 4] blo [of 5] blo [of 6] blo [of 7]
      bhi [of 0] bhi [of 1] bhi [of 2] bhi [of 3] bhi [of 4] bhi [of 5] bhi [of 6] bhi [of 7]
    by (intro sum_int32_Some [where c = 130050]) (simp_all add: INT_MAX_def)
  then have L3: "sum_int32 (lo ! 0)
            [lo ! 1, lo ! 2, lo ! 3, lo ! 4, lo ! 5, lo ! 6, lo ! 7,
             hi ! 0, hi ! 1, hi ! 2, hi ! 3, hi ! 4, hi ! 5, hi ! 6, hi ! 7]
        = Some ?S"
    by (simp add: sum_upto8)
  have c3: "cint64 (t0 + ?S - ?S) = Some t0"
    using t by (simp add: cint64_Some)
  have r: "0 \<le> row_sum a b (nat i) 8" "row_sum a b (nat i) 8 \<le> 195075 * int 8"
    by (rule row_sum_bounds)+
  have c4: "cint64 (t0 + row_sum a b (nat i) 8) = Some (t0 + row_sum a b (nat i) 8)"
    using t r by (intro cint64_Some) simp_all
  show ?thesis
    unfolding avx2_block_def Let_def
    by (simp only: c1 c2 la lb slo shi L1 L2 L3 c3 c4 bind.bind_lunit prod.case i_def [symmetric])
qed

lemma simd_loop:
  assumes blk: "\<And>n t'. n < N \<Longrightarrow> 0 \<le> t' \<Longrightarrow> t' < 2 ^ 62 \<Longrightarrow>
                  blk (int n * 8) (E t') = Some (E (t' + row_sum a b (rs + n * 32) 8))"
    and bound: "bound \<le> int N * 8" "\<And>n. n < N \<Longrightarrow> int n * 8 < bound"
    and t: "0 \<le> t0" "t0 + 195075 * int (N * 8) < 2 ^ 62"
  shows "for_lt 0 bound 8 blk (E t0) = Some (int N * 8, E (t0 + row_sum a b rs (N * 8)))"
proof -
  let ?f = "\<lambda>n. E (t0 + row_sum a b rs (n * 8))"
  have step: "blk (0 + int n * 8) (?f n) = Some (?f (Suc n))" if n: "n < N" for n
  proof -
    have r: "0 \<le> row_sum a b rs (n * 8)" "row_sum a b rs (n * 8) \<le> 195075 * int (n * 8)"
      by (rule row_sum_bounds)+
    have "195075 * int (n * 8) \<le> 195075 * int (N * 8)" using n by simp
    then have f: "0 \<le> t0 + row_sum a b rs (n * 8)" "t0 + row_sum a b rs (n * 8) < 2 ^ 62"
      using r t by linarith+
    have e: "rs + n * 8 * 4 = rs + n * 32" "Suc n * 8 = n * 8 + 8" by simp_all
    have "row_sum a b rs (Suc n * 8) = row_sum a b rs (n * 8) + row_sum a b (rs + n * 32) 8"
      using row_sum_append [of a b rs "n * 8" 8] unfolding e .
    then show ?thesis using blk [OF n f] by (simp only: add_0 add.assoc)
  qed
  have "for_lt 0 bound 8 blk (?f 0) = Some (0 + int N * 8, ?f N)"
    by (rule for_lt_run [where f = ?f]) (use step bound in simp_all)
  then show ?thesis by (simp add: row_sum_def)
qed

lemma kernel_rows:
  assumes geom: "in_range a b stride (int w) (int h)"
    and fit: "(int h - 1) * stride + int w * 4 + e \<le> INT_MAX + 2" and e: "0 \<le> e"
    and row: "\<And>rs t0. 0 \<le> rs \<Longrightarrow> rs + 4 * int w + e \<le> INT_MAX + 2 \<Longrightarrow>
                rs + 4 * int w \<le> int (length a) \<Longrightarrow> rs + 4 * int w \<le> int (length b) \<Longrightarrow>
                0 \<le> t0 \<Longrightarrow> t0 + 195075 * int w < 2 ^ 62 \<Longrightarrow>
                row rs (E t0) = Some (E (t0 + row_sum a b (nat rs) w))"
  shows "for_lt 0 (int h) 1 (\<lambda>y t. do { row_start \<leftarrow> cint (y * stride); row row_start t }) (E 0)
         = Some (int h, E (ssd_sum a b (nat stride) w h))"
proof -
  have wh: "0 \<le> stride" "int w * 4 \<le> stride" "0 < w"
    and len: "stride * int h \<le> int (length a)" "stride * int h \<le> int (length b)"
    using geom by (simp_all add: in_range_def)
  have fit0: "(int h - 1) * stride + int w * 4 \<le> INT_MAX + 2"
    using fit e by linarith
  have big: "195075 * int w * int h < 2 ^ 47"
    using pixels_fit [of "int w" "int h" stride] wh fit0 by simp
  let ?row = "\<lambda>y t. do { row_start \<leftarrow> cint (y * stride); row row_start t }"
  let ?f = "\<lambda>n. E (ssd_sum a b (nat stride) w n)"
  have step: "?row (0 + int n * 1) (?f n) = Some (?f (Suc n))" if n: "n < h" for n
  proof -
    have fitn: "int n * stride + stride \<le> stride * int h"
      using row_fits [OF wh(1) n] .
    have rs2: "int n * stride + 4 * int w + e \<le> INT_MAX + 2"
      using fit row_start_le [OF wh(1) n] by linarith
    have rs: "0 \<le> int n * stride" "int n * stride + 4 * int w + e \<le> INT_MAX + 2"
      "int n * stride + 4 * int w \<le> int (length a)"
      "int n * stride + 4 * int w \<le> int (length b)"
      using wh len fitn rs2 by simp_all
    have c: "cint (int n * stride) = Some (int n * stride)"
      using rs wh(3) e by (intro cint_Some) (simp_all add: INT_MAX_def)
    have "ssd_sum a b (nat stride) w n \<le> 195075 * int w * int n" by (rule ssd_sum_bounds)
    moreover have "195075 * int w * int n + 195075 * int w \<le> 195075 * int w * int h"
    proof -
      have "195075 * int w * (int n + 1) \<le> 195075 * int w * int h"
        using n by (intro mult_left_mono) simp_all
      then show ?thesis by (simp add: algebra_simps)
    qed
    ultimately have s: "0 \<le> ssd_sum a b (nat stride) w n"
      "ssd_sum a b (nat stride) w n + 195075 * int w < 2 ^ 62"
      using big ssd_sum_bounds(1) [of a b "nat stride" w n] by simp_all
    have nat_rs: "nat (int n * stride) = n * nat stride"
      using wh(1) by (simp add: nat_mult_distrib)
    show ?thesis
      using row [OF rs s] by (simp add: c nat_rs ssd_sum_def)
  qed
  have "for_lt 0 (int h) 1 ?row (?f 0) = Some (0 + int h * 1, ?f h)"
    by (rule for_lt_run [where f = ?f]) (use step in simp_all)
  then show ?thesis by (simp add: ssd_sum_def)
qed

lemma ssd_sum_exact:
  assumes "in_range a b stride (int w) (int h)"
    and "(int h - 1) * stride + int w * 4 \<le> INT_MAX + 2"
  shows "double_of_int (ssd_sum a b (nat stride) w h) = ssd_sum a b (nat stride) w h"
proof -
  have "195075 * int w * int h < 2 ^ 47"
    using pixels_fit [of "int w" "int h" stride] assms by (simp add: in_range_def)
  then have "\<bar>ssd_sum a b (nat stride) w h\<bar> < 2 ^ 53"
    using ssd_sum_bounds [of a b "nat stride" w h] by simp
  then show ?thesis by (rule double_of_int_exact)
qed

lemma sdiv_nonneg: "int w sdiv 8 = int (w div 8)"
  by (simp add: signed_divide_int_def sgn_if zdiv_int)

lemma row_offsets:
  assumes "0 \<le> (rs :: int)" "rs + 4 * int w \<le> M" "n < w div 8"
  shows "rs + int n * 8 * 4 + 32 \<le> M"
proof -
  have "n * 8 + 8 \<le> w" using assms(3) by simp
  then have "int n * 8 + 8 \<le> int w" by linarith
  then show ?thesis using assms(2) by simp
qed

lemma row_offsets_int:
  assumes "0 \<le> (rs :: int)" "rs + 4 * int w \<le> M + 2" "n < w div 8"
  shows "rs + int n * 8 * 4 + 30 \<le> M"
proof -
  have "n * 8 + 8 \<le> w" using assms(3) by simp
  then have "int n * 8 + 8 \<le> int w" by linarith
  then show ?thesis using assms(2) by simp
qed

lemma row_offsets_alpha:
  assumes "0 \<le> (rs :: int)"
    and "rs + 4 * int w + (if int w mod 8 = 0 then 1 else 0) \<le> M + 2"
    and "n < w div 8"
  shows "rs + int n * 8 * 4 + 31 \<le> M"
proof (cases "w mod 8 = 0")
  case True
  have "n * 8 + 8 \<le> w" using assms(3) by simp
  then have "int n * 8 + 8 \<le> int w" by linarith
  moreover have "int w mod 8 = 0" using True by presburger
  ultimately show ?thesis using assms(2) by simp
next
  case False
  then have "n * 8 + 9 \<le> w" using assms(3) by presburger
  then have "int n * 8 + 9 \<le> int w" by linarith
  then show ?thesis using assms(2) by (simp split: if_splits)
qed

lemma avx2_row:
  assumes rs: "0 \<le> rs" "rs + 4 * int w \<le> INT_MAX + 2"
    and len: "rs + 4 * int w \<le> int (length a)" "rs + 4 * int w \<le> int (length b)"
    and t: "0 \<le> t0" "t0 + 195075 * int w < 2 ^ 62"
  shows "do {
            simd_width \<leftarrow> cint ((int w sdiv 8) * 8);
            (x, total_sum) \<leftarrow> for_lt 0 simd_width 8 (avx2_block a b rs) t0;
            (_, total_sum) \<leftarrow> for_lt x (int w) 1 (tail_pixel a b rs) total_sum;
            Some total_sum
          } = Some (t0 + row_sum a b (nat rs) w)"
proof -
  define N where "N = w div 8"
  have N: "N * 8 \<le> w" by (simp add: N_def)
  have c: "cint ((int w sdiv 8) * 8) = Some (int N * 8)"
  proof -
    have "int N * 8 \<le> int w" using N by linarith
    then show ?thesis
      using rs by (simp add: sdiv_nonneg N_def [symmetric] cint_def INT_MAX_def)
  qed
  have blk: "avx2_block a b rs (int n * 8) t' = Some (t' + row_sum a b (nat rs + n * 32) 8)"
    if "n < N" "0 \<le> t'" "t' < 2 ^ 62" for n t'
  proof -
    have "nat (rs + int n * 8 * 4) = nat rs + n * 32"
      using rs(1) by (simp add: nat_add_distrib nat_mult_distrib)
    moreover have n8: "n < w div 8" using that(1) by (simp add: N_def)
    moreover have "rs + int n * 8 * 4 + 30 \<le> INT_MAX"
      using row_offsets_int [OF rs(1) rs(2) n8] .
    moreover have "rs + int n * 8 * 4 + 32 \<le> int (length a)"
      using row_offsets [OF rs(1) len(1) n8] .
    moreover have "rs + int n * 8 * 4 + 32 \<le> int (length b)"
      using row_offsets [OF rs(1) len(2) n8] .
    ultimately show ?thesis
      using avx2_block_Some [of "int n * 8" rs a b t'] that rs(1) by simp
  qed
  have r: "0 \<le> row_sum a b (nat rs) (N * 8)" "row_sum a b (nat rs) (N * 8) \<le> 195075 * int (N * 8)"
    by (rule row_sum_bounds)+
  have le: "195075 * int (N * 8) \<le> 195075 * int w" using N by simp
  have L1: "for_lt 0 (int N * 8) 8 (avx2_block a b rs) t0
            = Some (int N * 8, t0 + row_sum a b (nat rs) (N * 8))"
    using blk t le by (intro simd_loop [where E = "\<lambda>t. t"]) simp_all
  have L2: "for_lt (int (N * 8)) (int w) 1 (tail_pixel a b rs) (t0 + row_sum a b (nat rs) (N * 8))
            = Some (int w, t0 + row_sum a b (nat rs) (N * 8) + row_sum a b (nat rs + N * 8 * 4) (w - N * 8))"
  proof (rule tail_row [OF rs len N])
    show "0 \<le> t0 + row_sum a b (nat rs) (N * 8)" using t r by simp
    have "int (N * 8) + int (w - N * 8) = int w" using N by simp
    then have "195075 * int (N * 8) + 195075 * int (w - N * 8) = 195075 * int w" by linarith
    then show "t0 + row_sum a b (nat rs) (N * 8) + 195075 * int (w - N * 8) < 2 ^ 62"
      using t r by linarith
  qed
  have "row_sum a b (nat rs) w = row_sum a b (nat rs) (N * 8) + row_sum a b (nat rs + N * 8 * 4) (w - N * 8)"
    using row_sum_append [of a b "nat rs" "N * 8" "w - N * 8"] N by simp
  then show ?thesis using L1 L2 by (simp add: c)
qed

lemma avx2_correct:
  assumes "in_range a b stride width height" and "offsets_fit stride width height"
  shows "ssd_avx2 a b stride width height
         = Some (ssd_sum a b (nat stride) (nat width) (nat height))"
proof -
  define w h where "w = nat width" and "h = nat height"
  have wh: "width = int w" "height = int h"
    using assms(1) by (simp_all add: in_range_def w_def h_def)
  have geom: "in_range a b stride (int w) (int h)" using assms(1) wh by simp
  have fit: "(int h - 1) * stride + int w * 4 \<le> INT_MAX + 2"
    using assms(2) wh by (simp add: offsets_fit_limit)
  have "for_lt 0 (int h) 1
          (\<lambda>y total_sum. do {
            row_start \<leftarrow> cint (y * stride);
            simd_width \<leftarrow> cint ((int w sdiv 8) * 8);
            (x, total_sum) \<leftarrow> for_lt 0 simd_width 8 (avx2_block a b row_start) total_sum;
            (_, total_sum) \<leftarrow> for_lt x (int w) 1 (tail_pixel a b row_start) total_sum;
            Some total_sum
          }) 0 = Some (int h, ssd_sum a b (nat stride) w h)"
    apply (rule kernel_rows [where E = "\<lambda>t. t" and e = 0, OF geom])
      apply (use fit in simp)
     apply simp
    apply (rule avx2_row; simp)
    done
  then show ?thesis
    using ssd_sum_exact [OF geom fit]
    by (simp add: ssd_avx2_def wh w_def [symmetric] h_def [symmetric])
qed

lemma lanes_lo_nth:
  assumes "m + 32 \<le> length a" "m + 32 \<le> length b" "k < 8"
  shows "sq_pairs (mm256_castsi256_si128 (take 32 (drop m a)))
           (mm256_castsi256_si128 (take 32 (drop m b))) ! k
         = sq_diff a b (m + 2 * k) + sq_diff a b (m + 2 * k + 1)"
proof -
  have "sq_pairs (take 16 (drop m a)) (take 16 (drop m b)) ! k
        = sq_diff (take 16 (drop m a)) (take 16 (drop m b)) (2 * k)
          + sq_diff (take 16 (drop m a)) (take 16 (drop m b)) (2 * k + 1)"
    using assms by (intro sq_pairs_nth) simp
  then show ?thesis
    using assms sq_diff_window [of "2 * k" 16 m a b] sq_diff_window [of "2 * k + 1" 16 m a b]
    by (simp add: mm256_castsi256_si128_def add.assoc)
qed

lemma lanes_hi_nth:
  assumes "m + 32 \<le> length a" "m + 32 \<le> length b" "k < 8"
  shows "sq_pairs (mm256_extracti128_si256_1 (take 32 (drop m a)))
           (mm256_extracti128_si256_1 (take 32 (drop m b))) ! k
         = sq_diff a b (m + 16 + 2 * k) + sq_diff a b (m + 16 + 2 * k + 1)"
proof -
  have "sq_pairs (take 16 (drop (m + 16) a)) (take 16 (drop (m + 16) b)) ! k
        = sq_diff (take 16 (drop (m + 16) a)) (take 16 (drop (m + 16) b)) (2 * k)
          + sq_diff (take 16 (drop (m + 16) a)) (take 16 (drop (m + 16) b)) (2 * k + 1)"
    using assms by (intro sq_pairs_nth) simp
  then show ?thesis
    using assms sq_diff_window [of "2 * k" 16 "m + 16" a b]
      sq_diff_window [of "2 * k + 1" 16 "m + 16" a b]
    by (simp add: mm256_extracti128_si256_1_def add.assoc drop_take add.commute)
qed

lemma pair_sum_loop:
  assumes arr: "\<And>k. k < 8 \<Longrightarrow> 0 \<le> arr ! k \<and> arr ! k \<le> 130050"
    and p0: "0 \<le> p0" "p0 \<le> 2 ^ 30"
  shows "for_lt 0 8 2
           (\<lambda>p pixel_sum. do {
              t \<leftarrow> cint (pixel_sum + arr ! nat p);
              cint (t + arr ! nat (p + 1))
            })
           p0
         = Some (8, p0 + (\<Sum>k<8. arr ! k))"
proof -
  let ?body = "\<lambda>p pixel_sum. do {
              t \<leftarrow> cint (pixel_sum + arr ! nat p);
              cint (t + arr ! nat (p + 1))
            }"
  let ?f = "\<lambda>n. p0 + (\<Sum>k<n * 2. arr ! k)"
  have step: "?body (0 + int n * 2) (?f n) = Some (?f (Suc n))" if n: "n < 4" for n
  proof -
    have b: "0 \<le> arr ! k \<and> arr ! k \<le> 130050" if "k < n * 2" for k
      using arr [of k] that n by simp
    have s: "0 \<le> (\<Sum>k<n * 2. arr ! k)" "(\<Sum>k<n * 2. arr ! k) \<le> 130050 * int (n * 2)"
      using sum_le_count [where f = "\<lambda>k. arr ! k" and c = 130050 and n = "n * 2", OF b] by simp_all
    have e: "nat (int n * 2) = n * 2" "nat (int n * 2 + 1) = n * 2 + 1" by simp_all
    have a0: "0 \<le> arr ! (n * 2)" "arr ! (n * 2) \<le> 130050"
      and a1: "0 \<le> arr ! (n * 2 + 1)" "arr ! (n * 2 + 1) \<le> 130050"
      using arr [of "n * 2"] arr [of "n * 2 + 1"] n by simp_all
    have c1: "cint (?f n + arr ! (n * 2)) = Some (?f n + arr ! (n * 2))"
      using s p0 a0 n by (intro cint_Some) simp_all
    have c2: "cint (?f n + arr ! (n * 2) + arr ! (n * 2 + 1))
              = Some (?f n + arr ! (n * 2) + arr ! (n * 2 + 1))"
      using s p0 a0 a1 n by (intro cint_Some) simp_all
    show ?thesis using c1 c2 by (simp add: e add.assoc)
  qed
  have "for_lt 0 8 2 ?body (?f 0) = Some (0 + int 4 * 2, ?f 4)"
    by (rule for_lt_run [where f = ?f]) (use step in simp_all)
  then show ?thesis by simp
qed

lemma alpha_loop:
  assumes i: "0 \<le> i" "i + 31 \<le> INT_MAX" "i + 32 \<le> int (length a)" "i + 32 \<le> int (length b)"
    and p0: "0 \<le> p0" "p0 \<le> 2 ^ 30"
  shows "for_lt 0 8 1
           (\<lambda>p pixel_sum. do {
              p4 \<leftarrow> cint (p * 4);
              ip \<leftarrow> cint (i + p4);
              idx \<leftarrow> cint (ip + 3);
              ai \<leftarrow> rd a idx;
              bi \<leftarrow> rd b idx;
              da \<leftarrow> cint (uint ai - uint bi);
              dd \<leftarrow> cint (da * da);
              cint (pixel_sum - dd)
            })
           p0
         = Some (8, p0 - (\<Sum>p<8. sq_diff a b (nat i + p * 4 + 3)))"
proof -
  let ?body = "\<lambda>p pixel_sum. do {
              p4 \<leftarrow> cint (p * 4);
              ip \<leftarrow> cint (i + p4);
              idx \<leftarrow> cint (ip + 3);
              ai \<leftarrow> rd a idx;
              bi \<leftarrow> rd b idx;
              da \<leftarrow> cint (uint ai - uint bi);
              dd \<leftarrow> cint (da * da);
              cint (pixel_sum - dd)
            }"
  let ?g = "\<lambda>p. sq_diff a b (nat i + p * 4 + 3)"
  let ?f = "\<lambda>n. p0 - (\<Sum>p<n. ?g p)"
  have step: "?body (0 + int n * 1) (?f n) = Some (?f (Suc n))" if n: "n < 8" for n
  proof -
    let ?j = "nat i + n * 4 + 3"
    have c1: "cint (int n * 4) = Some (int n * 4)"
      using n by (intro cint_Some) simp_all
    have c2: "cint (i + int n * 4) = Some (i + int n * 4)"
      using n i by (intro cint_Some) (simp_all add: INT_MAX_def)
    have c3: "cint (i + int n * 4 + 3) = Some (i + int n * 4 + 3)"
      using n i by (intro cint_Some) (simp_all add: INT_MAX_def)
    have j: "nat (i + int n * 4 + 3) = ?j"
      using i(1) by (simp add: nat_add_distrib nat_mult_distrib)
    have ra: "rd a (i + int n * 4 + 3) = Some (a ! ?j)"
      using rd_Some [of "i + int n * 4 + 3" a] i n j by simp
    have rb: "rd b (i + int n * 4 + 3) = Some (b ! ?j)"
      using rd_Some [of "i + int n * 4 + 3" b] i n j by simp
    let ?d = "uint (a ! ?j) - uint (b ! ?j)"
    have c4: "cint ?d = Some ?d"
      using byte_range [of "a ! ?j"] byte_range [of "b ! ?j"] by (intro cint_Some) linarith+
    have g: "?d * ?d = ?g n" by (simp add: sq_diff_def power2_eq_square)
    have gb: "0 \<le> ?g n" "?g n \<le> 65025" by (rule sq_diff_bounds)+
    have c5: "cint (?g n) = Some (?g n)"
      using gb by (intro cint_Some) simp_all
    have b: "0 \<le> ?g k \<and> ?g k \<le> 65025" for k
      using sq_diff_bounds [of a b "nat i + k * 4 + 3"] by simp
    have s: "0 \<le> (\<Sum>p<n. ?g p)" "(\<Sum>p<n. ?g p) \<le> 65025 * int n"
      using sum_le_count [where f = ?g and c = 65025 and n = n] b by simp_all
    have c6: "cint (?f n - ?g n) = Some (?f n - ?g n)"
      using s gb p0 n by (intro cint_Some) simp_all
    show ?thesis
      using c6 by (simp add: c1 c2 c3 ra rb c4 g c5)
  qed
  have "for_lt 0 8 1 ?body (?f 0) = Some (0 + int 8 * 1, ?f 8)"
    by (rule for_lt_run [where f = ?f]) (use step in simp_all)
  then show ?thesis by simp
qed

lemma row_sum_8:
  "row_sum a b m 8
   = (\<Sum>k<8. (sq_diff a b (m + 2 * k) + sq_diff a b (m + 2 * k + 1))
             + (sq_diff a b (m + 16 + 2 * k) + sq_diff a b (m + 16 + 2 * k + 1)))
     - (\<Sum>p<8. sq_diff a b (m + p * 4 + 3))"
proof -
  define g where "g k = sq_diff a b (m + k)" for k
  have "row_sum a b m 8 = (\<Sum>x<8. g (x * 4) + g (x * 4 + 1) + g (x * 4 + 2))"
    by (simp add: row_sum_def rgb_ssd_def g_def add.assoc)
  also have "\<dots> = (\<Sum>k<8. (g (2 * k) + g (2 * k + 1)) + (g (16 + 2 * k) + g (16 + 2 * k + 1)))
      - (\<Sum>p<8. g (p * 4 + 3))"
    by (simp add: sum_upto8 numeral_2_eq_2 [symmetric])
  finally show ?thesis by (simp add: g_def ac_simps)
qed

lemma simple_block_Some:
  assumes x: "0 \<le> x" "0 \<le> rs"
    and fit: "rs + x * 4 + 31 \<le> INT_MAX"
    and len: "rs + x * 4 + 32 \<le> int (length a)" "rs + x * 4 + 32 \<le> int (length b)"
    and t: "0 \<le> t0" "t0 < 2 ^ 62"
  shows "simple_block a b rs x t0 = Some (t0 + row_sum a b (nat (rs + x * 4)) 8)"
proof -
  define i where "i = rs + x * 4"
  define va vb where "va = take 32 (drop (nat i) a)" and "vb = take 32 (drop (nat i) b)"
  define lo hi where "lo = sq_pairs (mm256_castsi256_si128 va) (mm256_castsi256_si128 vb)"
    and "hi = sq_pairs (mm256_extracti128_si256_1 va) (mm256_extracti128_si256_1 vb)"
  have i0: "0 \<le> i" using x by (simp add: i_def)
  have ni: "nat i + 32 \<le> length a" "nat i + 32 \<le> length b"
    using len i0 by (simp_all add: i_def)
  have c1: "cint (x * 4) = Some (x * 4)"
    using x fit by (intro cint_Some) (simp_all add: INT_MAX_def)
  have c2: "cint i = Some i"
    unfolding i_def using x fit by (intro cint_Some) (simp_all add: INT_MAX_def)
  have la: "mm256_loadu_si256 a i = Some va" and lb: "mm256_loadu_si256 b i = Some vb"
    unfolding va_def vb_def using i0 len by (simp_all add: load_Some i_def)
  have slo: "store_int32
     (mm256_madd_epi16
        (mm256_sub_epi16 (mm256_cvtepu8_epi16 (mm256_castsi256_si128 va))
           (mm256_cvtepu8_epi16 (mm256_castsi256_si128 vb)))
        (mm256_sub_epi16 (mm256_cvtepu8_epi16 (mm256_castsi256_si128 va))
           (mm256_cvtepu8_epi16 (mm256_castsi256_si128 vb)))) = lo"
    unfolding lo_def by (rule store_lanes_cvtepu8)
  have shi: "store_int32
     (mm256_madd_epi16
        (mm256_sub_epi16 (mm256_cvtepu8_epi16 (mm256_extracti128_si256_1 va))
           (mm256_cvtepu8_epi16 (mm256_extracti128_si256_1 vb)))
        (mm256_sub_epi16 (mm256_cvtepu8_epi16 (mm256_extracti128_si256_1 va))
           (mm256_cvtepu8_epi16 (mm256_extracti128_si256_1 vb)))) = hi"
    unfolding hi_def by (rule store_lanes_cvtepu8)
  have nlo: "lo ! k = sq_diff a b (nat i + 2 * k) + sq_diff a b (nat i + 2 * k + 1)" if "k < 8" for k
    unfolding lo_def va_def vb_def using ni that by (rule lanes_lo_nth)
  have nhi: "hi ! k = sq_diff a b (nat i + 16 + 2 * k) + sq_diff a b (nat i + 16 + 2 * k + 1)"
    if "k < 8" for k
    unfolding hi_def va_def vb_def using ni that by (rule lanes_hi_nth)
  have blo: "0 \<le> lo ! k \<and> lo ! k \<le> 130050" if "k < 8" for k
    using nlo [OF that] sq_diff_bounds [of a b "nat i + 2 * k"]
      sq_diff_bounds [of a b "nat i + 2 * k + 1"] by simp
  have bhi: "0 \<le> hi ! k \<and> hi ! k \<le> 130050" if "k < 8" for k
    using nhi [OF that] sq_diff_bounds [of a b "nat i + 16 + 2 * k"]
      sq_diff_bounds [of a b "nat i + 16 + 2 * k + 1"] by simp
  let ?Slo = "\<Sum>k<8. lo ! k"
  let ?Shi = "\<Sum>k<8. hi ! k"
  let ?A = "\<Sum>p<8. sq_diff a b (nat i + p * 4 + 3)"
  have Slo: "0 \<le> ?Slo" "?Slo \<le> 130050 * 8"
    using sum_le_count [where f = "\<lambda>k. lo ! k" and c = 130050 and n = 8, OF blo] by simp_all
  have Shi: "0 \<le> ?Shi" "?Shi \<le> 130050 * 8"
    using sum_le_count [where f = "\<lambda>k. hi ! k" and c = 130050 and n = 8, OF bhi] by simp_all
  have L1: "for_lt 0 8 2
           (\<lambda>p pixel_sum. do {
              t \<leftarrow> cint (pixel_sum + lo ! nat p);
              cint (t + lo ! nat (p + 1))
            })
           0
         = Some (8, ?Slo)"
    using pair_sum_loop [of lo 0] blo by simp
  have L2: "for_lt 0 8 2
           (\<lambda>p pixel_sum. do {
              t \<leftarrow> cint (pixel_sum + hi ! nat p);
              cint (t + hi ! nat (p + 1))
            })
           ?Slo
         = Some (8, ?Slo + ?Shi)"
    using pair_sum_loop [of hi ?Slo] bhi Slo by simp
  have L3: "for_lt 0 8 1
           (\<lambda>p pixel_sum. do {
              p4 \<leftarrow> cint (p * 4);
              ip \<leftarrow> cint (i + p4);
              idx \<leftarrow> cint (ip + 3);
              ai \<leftarrow> rd a idx;
              bi \<leftarrow> rd b idx;
              da \<leftarrow> cint (uint ai - uint bi);
              dd \<leftarrow> cint (da * da);
              cint (pixel_sum - dd)
            })
           (?Slo + ?Shi)
         = Some (8, ?Slo + ?Shi - ?A)"
    using alpha_loop [of i a b "?Slo + ?Shi"] i0 fit len Slo Shi by (simp add: i_def)
  have "?Slo + ?Shi = (\<Sum>k<8. lo ! k + hi ! k)" by (simp add: sum.distrib)
  also have "\<dots> = (\<Sum>k<8. (sq_diff a b (nat i + 2 * k) + sq_diff a b (nat i + 2 * k + 1))
             + (sq_diff a b (nat i + 16 + 2 * k) + sq_diff a b (nat i + 16 + 2 * k + 1)))"
    by (rule sum.cong) (simp_all add: nlo nhi)
  finally have P: "?Slo + ?Shi - ?A = row_sum a b (nat i) 8"
    by (simp only: row_sum_8)
  have r: "0 \<le> row_sum a b (nat i) 8" "row_sum a b (nat i) 8 \<le> 195075 * int 8"
    by (rule row_sum_bounds)+
  have c4: "cint64 (t0 + row_sum a b (nat i) 8) = Some (t0 + row_sum a b (nat i) 8)"
    using t r by (intro cint64_Some) simp_all
  show ?thesis
    unfolding simple_block_def Let_def
    by (simp only: c1 c2 la lb slo shi L1 L2 L3 P c4 bind.bind_lunit prod.case i_def [symmetric])
qed

lemma simple_row:
  assumes rs0: "0 \<le> rs"
    and rsa: "rs + 4 * int w + (if int w mod 8 = 0 then 1 else 0) \<le> INT_MAX + 2"
    and len: "rs + 4 * int w \<le> int (length a)" "rs + 4 * int w \<le> int (length b)"
    and t: "0 \<le> t0" "t0 + 195075 * int w < 2 ^ 62"
  shows "do {
            lim \<leftarrow> cint (int w - 8);
            (x, total_sum) \<leftarrow> for_le 0 lim 8 (simple_block a b rs) t0;
            (_, total_sum) \<leftarrow> for_lt x (int w) 1 (tail_pixel a b rs) total_sum;
            Some total_sum
          } = Some (t0 + row_sum a b (nat rs) w)"
proof -
  have rs: "0 \<le> rs" "rs + 4 * int w \<le> INT_MAX + 2"
    using rs0 rsa by (simp_all split: if_splits)
  define N where "N = w div 8"
  have N: "N * 8 \<le> w" by (simp add: N_def)
  have c: "cint (int w - 8) = Some (int w - 8)"
    using rs by (intro cint_Some) (simp_all add: INT_MAX_def)
  have blk: "simple_block a b rs (int n * 8) t' = Some (t' + row_sum a b (nat rs + n * 32) 8)"
    if "n < N" "0 \<le> t'" "t' < 2 ^ 62" for n t'
  proof -
    have "nat (rs + int n * 8 * 4) = nat rs + n * 32"
      using rs(1) by (simp add: nat_add_distrib nat_mult_distrib)
    moreover have n8: "n < w div 8" using that(1) by (simp add: N_def)
    moreover have "rs + int n * 8 * 4 + 31 \<le> INT_MAX"
      using row_offsets_alpha [OF rs(1) rsa n8] .
    moreover have "rs + int n * 8 * 4 + 32 \<le> int (length a)"
      using row_offsets [OF rs(1) len(1) n8] .
    moreover have "rs + int n * 8 * 4 + 32 \<le> int (length b)"
      using row_offsets [OF rs(1) len(2) n8] .
    ultimately show ?thesis
      using simple_block_Some [of "int n * 8" rs a b t'] that rs(1) by simp
  qed
  have r: "0 \<le> row_sum a b (nat rs) (N * 8)" "row_sum a b (nat rs) (N * 8) \<le> 195075 * int (N * 8)"
    by (rule row_sum_bounds)+
  have le: "195075 * int (N * 8) \<le> 195075 * int w" using N by simp
  have L1: "for_lt 0 (int w - 8 + 1) 8 (simple_block a b rs) t0
            = Some (int N * 8, t0 + row_sum a b (nat rs) (N * 8))"
  proof (rule simd_loop [where E = "\<lambda>t. t", OF blk])
    show "int w - 8 + 1 \<le> int N * 8" unfolding N_def by linarith
    show "int n * 8 < int w - 8 + 1" if "n < N" for n using that unfolding N_def by linarith
    show "0 \<le> t0" by (rule t)
    show "t0 + 195075 * int (N * 8) < 2 ^ 62" using t le by linarith
  qed
  have L2: "for_lt (int (N * 8)) (int w) 1 (tail_pixel a b rs) (t0 + row_sum a b (nat rs) (N * 8))
            = Some (int w, t0 + row_sum a b (nat rs) (N * 8) + row_sum a b (nat rs + N * 8 * 4) (w - N * 8))"
  proof (rule tail_row [OF rs len N])
    show "0 \<le> t0 + row_sum a b (nat rs) (N * 8)" using t r by simp
    have "int (N * 8) + int (w - N * 8) = int w" using N by simp
    then have "195075 * int (N * 8) + 195075 * int (w - N * 8) = 195075 * int w" by linarith
    then show "t0 + row_sum a b (nat rs) (N * 8) + 195075 * int (w - N * 8) < 2 ^ 62"
      using t r by linarith
  qed
  have "row_sum a b (nat rs) w = row_sum a b (nat rs) (N * 8) + row_sum a b (nat rs + N * 8 * 4) (w - N * 8)"
    using row_sum_append [of a b "nat rs" "N * 8" "w - N * 8"] N by simp
  then show ?thesis using L1 L2 by (simp add: c for_le_def)
qed

lemma simple_correct:
  assumes "in_range a b stride width height" and "batch_offsets_fit stride width height"
  shows "ssd_avx2_simple a b stride width height
         = Some (ssd_sum a b (nat stride) (nat width) (nat height))"
proof -
  define w h where "w = nat width" and "h = nat height"
  have wh: "width = int w" "height = int h"
    using assms(1) by (simp_all add: in_range_def w_def h_def)
  have geom: "in_range a b stride (int w) (int h)" using assms(1) wh by simp
  have fita: "(int h - 1) * stride + int w * 4 + (if int w mod 8 = 0 then 1 else 0) \<le> INT_MAX + 2"
    using assms(2) wh by (simp add: batch_offsets_fit_limit)
  then have fit: "(int h - 1) * stride + int w * 4 \<le> INT_MAX + 2"
    by (simp split: if_splits)
  have e: "0 \<le> (if int w mod 8 = 0 then 1 else 0 :: int)" by simp
  have "for_lt 0 (int h) 1
          (\<lambda>y total_sum. do {
            row_start \<leftarrow> cint (y * stride);
            lim \<leftarrow> cint (int w - 8);
            (x, total_sum) \<leftarrow> for_le 0 lim 8 (simple_block a b row_start) total_sum;
            (_, total_sum) \<leftarrow> for_lt x (int w) 1 (tail_pixel a b row_start) total_sum;
            Some total_sum
          }) 0 = Some (int h, ssd_sum a b (nat stride) w h)"
    by (rule kernel_rows [where E = "\<lambda>t. t", OF geom fita e]) (rule simple_row)
  then show ?thesis
    using ssd_sum_exact [OF geom fit]
    by (simp add: ssd_avx2_simple_def wh w_def [symmetric] h_def [symmetric])
qed

section \<open>What \<^verbatim>\<open>ssd_avx2_v2\<close> computes\<close>

lemma set1_add:
  "mm256_add_epi32 (mm256_set1_epi32 x) (mm256_set1_epi32 y) = mm256_set1_epi32 (x + y)"
  by (simp add: mm256_add_epi32_def mm256_set1_epi32_def epi32_of_bytes zip_replicate)

lemma setzero_set1: "mm256_setzero_si256 = mm256_set1_epi32 0"
  by (simp add: mm256_setzero_si256_def mm256_set1_epi32_def numeral_eq_Suc)

lemma store_set1:
  "store_int32 (mm256_set1_epi32 x) = replicate 8 (sint (word_of_int x :: 32 word))"
  by (simp add: store_int32_def mm256_set1_epi32_def epi32_of_bytes)

lemma even_lanes_loop:
  assumes lo: "\<And>k. k < 8 \<Longrightarrow> 0 \<le> lo ! k \<and> lo ! k \<le> 130050"
    and hi: "\<And>k. k < 8 \<Longrightarrow> 0 \<le> hi ! k \<and> hi ! k \<le> 130050"
  shows "for_lt 0 4 1
           (\<lambda>p pixel_sum. do {
              p2 \<leftarrow> cint (p * 2);
              t \<leftarrow> cint (pixel_sum + lo ! nat p2);
              cint (t + hi ! nat p2)
            })
           0
         = Some (4, \<Sum>p<4. lo ! (p * 2) + hi ! (p * 2))"
proof -
  let ?body = "\<lambda>p pixel_sum. do {
              p2 \<leftarrow> cint (p * 2);
              t \<leftarrow> cint (pixel_sum + lo ! nat p2);
              cint (t + hi ! nat p2)
            }"
  let ?g = "\<lambda>p. lo ! (p * 2) + hi ! (p * 2)"
  let ?f = "\<lambda>n. \<Sum>p<n. ?g p"
  have b: "0 \<le> ?g k \<and> ?g k \<le> 260100" if "k < 4" for k
    using lo [of "k * 2"] hi [of "k * 2"] that by simp
  have step: "?body (0 + int n * 1) (?f n) = Some (?f (Suc n))" if n: "n < 4" for n
  proof -
    have b': "0 \<le> ?g k \<and> ?g k \<le> 260100" if "k < n" for k
      using b [of k] that n by simp
    have s: "0 \<le> ?f n" "?f n \<le> 260100 * int n"
      using sum_le_count [where f = ?g and c = 260100 and n = n, OF b'] by simp_all
    have c1: "cint (int n * 2) = Some (int n * 2)"
      using n by (intro cint_Some) simp_all
    have e: "nat (int n * 2) = n * 2" by simp
    have l: "0 \<le> lo ! (n * 2)" "lo ! (n * 2) \<le> 130050" "0 \<le> hi ! (n * 2)" "hi ! (n * 2) \<le> 130050"
      using lo [of "n * 2"] hi [of "n * 2"] n by simp_all
    have c2: "cint (?f n + lo ! (n * 2)) = Some (?f n + lo ! (n * 2))"
      using s l n by (intro cint_Some) simp_all
    have c3: "cint (?f n + lo ! (n * 2) + hi ! (n * 2)) = Some (?f n + lo ! (n * 2) + hi ! (n * 2))"
      using s l n by (intro cint_Some) simp_all
    show ?thesis using c2 c3 by (simp add: c1 e add.assoc)
  qed
  have "for_lt 0 4 1 ?body (?f 0) = Some (0 + int 4 * 1, ?f 4)"
    by (rule for_lt_run [where f = ?f]) (use step in simp_all)
  then show ?thesis by simp
qed

lemma blue_loop:
  assumes i: "0 \<le> i" "i + 30 \<le> INT_MAX" "i + 32 \<le> int (length a)" "i + 32 \<le> int (length b)"
    and p0: "0 \<le> p0" "p0 \<le> 2 ^ 30"
  shows "for_lt 0 8 1
           (\<lambda>p pixel_sum. do {
              base \<leftarrow> cint (p * 4);
              ib \<leftarrow> cint (i + base);
              idx \<leftarrow> cint (ib + 2);
              ai \<leftarrow> rd a idx;
              bi \<leftarrow> rd b idx;
              db \<leftarrow> cint (uint ai - uint bi);
              dd \<leftarrow> cint (db * db);
              cint (pixel_sum + dd)
            })
           p0
         = Some (8, p0 + (\<Sum>p<8. sq_diff a b (nat i + p * 4 + 2)))"
proof -
  let ?body = "\<lambda>p pixel_sum. do {
              base \<leftarrow> cint (p * 4);
              ib \<leftarrow> cint (i + base);
              idx \<leftarrow> cint (ib + 2);
              ai \<leftarrow> rd a idx;
              bi \<leftarrow> rd b idx;
              db \<leftarrow> cint (uint ai - uint bi);
              dd \<leftarrow> cint (db * db);
              cint (pixel_sum + dd)
            }"
  let ?g = "\<lambda>p. sq_diff a b (nat i + p * 4 + 2)"
  let ?f = "\<lambda>n. p0 + (\<Sum>p<n. ?g p)"
  have step: "?body (0 + int n * 1) (?f n) = Some (?f (Suc n))" if n: "n < 8" for n
  proof -
    let ?j = "nat i + n * 4 + 2"
    have c1: "cint (int n * 4) = Some (int n * 4)"
      using n by (intro cint_Some) simp_all
    have c2: "cint (i + int n * 4) = Some (i + int n * 4)"
      using n i by (intro cint_Some) (simp_all add: INT_MAX_def)
    have c3: "cint (i + int n * 4 + 2) = Some (i + int n * 4 + 2)"
      using n i by (intro cint_Some) (simp_all add: INT_MAX_def)
    have j: "nat (i + int n * 4 + 2) = ?j"
      using i(1) by (simp add: nat_add_distrib nat_mult_distrib)
    have ra: "rd a (i + int n * 4 + 2) = Some (a ! ?j)"
      using rd_Some [of "i + int n * 4 + 2" a] i n j by simp
    have rb: "rd b (i + int n * 4 + 2) = Some (b ! ?j)"
      using rd_Some [of "i + int n * 4 + 2" b] i n j by simp
    let ?d = "uint (a ! ?j) - uint (b ! ?j)"
    have c4: "cint ?d = Some ?d"
      using byte_range [of "a ! ?j"] byte_range [of "b ! ?j"] by (intro cint_Some) linarith+
    have g: "?d * ?d = ?g n" by (simp add: sq_diff_def power2_eq_square)
    have gb: "0 \<le> ?g n" "?g n \<le> 65025" by (rule sq_diff_bounds)+
    have c5: "cint (?g n) = Some (?g n)"
      using gb by (intro cint_Some) simp_all
    have b: "0 \<le> ?g k \<and> ?g k \<le> 65025" for k
      using sq_diff_bounds [of a b "nat i + k * 4 + 2"] by simp
    have s: "0 \<le> (\<Sum>p<n. ?g p)" "(\<Sum>p<n. ?g p) \<le> 65025 * int n"
      using sum_le_count [where f = ?g and c = 65025 and n = n] b by simp_all
    have c6: "cint (?f n + ?g n) = Some (?f n + ?g n)"
      using s gb p0 n by (intro cint_Some) simp_all
    show ?thesis
      using c1 c2 c3 ra rb c4 g c5 c6 by (simp add: add.assoc)
  qed
  have "for_lt 0 8 1 ?body (?f 0) = Some (0 + int 8 * 1, ?f 8)"
    by (rule for_lt_run [where f = ?f]) (use step in simp_all)
  then show ?thesis by simp
qed

lemma row_sum_8_v2:
  "row_sum a b m 8
   = (\<Sum>p<4. (sq_diff a b (m + 2 * (p * 2)) + sq_diff a b (m + 2 * (p * 2) + 1))
             + (sq_diff a b (m + 16 + 2 * (p * 2)) + sq_diff a b (m + 16 + 2 * (p * 2) + 1)))
     + (\<Sum>p<8. sq_diff a b (m + p * 4 + 2))"
proof -
  define g where "g k = sq_diff a b (m + k)" for k
  have "row_sum a b m 8 = (\<Sum>x<8. g (x * 4) + g (x * 4 + 1) + g (x * 4 + 2))"
    by (simp add: row_sum_def rgb_ssd_def g_def add.assoc)
  also have "\<dots> = (\<Sum>p<4. (g (2 * (p * 2)) + g (2 * (p * 2) + 1))
           + (g (16 + 2 * (p * 2)) + g (16 + 2 * (p * 2) + 1)))
      + (\<Sum>p<8. g (p * 4 + 2))"
    by (simp add: sum_upto8 sum_upto4 numeral_2_eq_2 [symmetric])
  finally show ?thesis by (simp add: g_def ac_simps)
qed

lemma v2_block_Some:
  assumes x: "0 \<le> x" "0 \<le> rs"
    and fit: "rs + x * 4 + 30 \<le> INT_MAX"
    and len: "rs + x * 4 + 32 \<le> int (length a)" "rs + x * 4 + 32 \<le> int (length b)"
  shows "v2_block a b rs x (mm256_set1_epi32 t0)
         = Some (mm256_set1_epi32 (t0 + row_sum a b (nat (rs + x * 4)) 8))"
proof -
  define i where "i = rs + x * 4"
  define va vb where "va = take 32 (drop (nat i) a)" and "vb = take 32 (drop (nat i) b)"
  define lo hi where "lo = sq_pairs (mm256_castsi256_si128 va) (mm256_castsi256_si128 vb)"
    and "hi = sq_pairs (mm256_extracti128_si256_1 va) (mm256_extracti128_si256_1 vb)"
  have i0: "0 \<le> i" using x by (simp add: i_def)
  have ni: "nat i + 32 \<le> length a" "nat i + 32 \<le> length b"
    using len i0 by (simp_all add: i_def)
  have c1: "cint (x * 4) = Some (x * 4)"
    using x fit by (intro cint_Some) (simp_all add: INT_MAX_def)
  have c2: "cint i = Some i"
    unfolding i_def using x fit by (intro cint_Some) (simp_all add: INT_MAX_def)
  have la: "mm256_loadu_si256 a i = Some va" and lb: "mm256_loadu_si256 b i = Some vb"
    unfolding va_def vb_def using i0 len by (simp_all add: load_Some i_def)
  have slo: "store_int32
     (mm256_madd_epi16
        (mm256_sub_epi16 (mm256_cvtepu8_epi16 (mm256_castsi256_si128 va))
           (mm256_cvtepu8_epi16 (mm256_castsi256_si128 vb)))
        (mm256_sub_epi16 (mm256_cvtepu8_epi16 (mm256_castsi256_si128 va))
           (mm256_cvtepu8_epi16 (mm256_castsi256_si128 vb)))) = lo"
    unfolding lo_def by (rule store_lanes_cvtepu8)
  have shi: "store_int32
     (mm256_madd_epi16
        (mm256_sub_epi16 (mm256_cvtepu8_epi16 (mm256_extracti128_si256_1 va))
           (mm256_cvtepu8_epi16 (mm256_extracti128_si256_1 vb)))
        (mm256_sub_epi16 (mm256_cvtepu8_epi16 (mm256_extracti128_si256_1 va))
           (mm256_cvtepu8_epi16 (mm256_extracti128_si256_1 vb)))) = hi"
    unfolding hi_def by (rule store_lanes_cvtepu8)
  have nlo: "lo ! k = sq_diff a b (nat i + 2 * k) + sq_diff a b (nat i + 2 * k + 1)" if "k < 8" for k
    unfolding lo_def va_def vb_def using ni that by (rule lanes_lo_nth)
  have nhi: "hi ! k = sq_diff a b (nat i + 16 + 2 * k) + sq_diff a b (nat i + 16 + 2 * k + 1)"
    if "k < 8" for k
    unfolding hi_def va_def vb_def using ni that by (rule lanes_hi_nth)
  have blo: "0 \<le> lo ! k \<and> lo ! k \<le> 130050" if "k < 8" for k
    using nlo [OF that] sq_diff_bounds [of a b "nat i + 2 * k"]
      sq_diff_bounds [of a b "nat i + 2 * k + 1"] by simp
  have bhi: "0 \<le> hi ! k \<and> hi ! k \<le> 130050" if "k < 8" for k
    using nhi [OF that] sq_diff_bounds [of a b "nat i + 16 + 2 * k"]
      sq_diff_bounds [of a b "nat i + 16 + 2 * k + 1"] by simp
  let ?E = "\<Sum>p<4. lo ! (p * 2) + hi ! (p * 2)"
  let ?B = "\<Sum>p<8. sq_diff a b (nat i + p * 4 + 2)"
  have be: "0 \<le> lo ! (p * 2) + hi ! (p * 2) \<and> lo ! (p * 2) + hi ! (p * 2) \<le> 260100"
    if "p < 4" for p
    using blo [of "p * 2"] bhi [of "p * 2"] that by simp
  have E: "0 \<le> ?E" "?E \<le> 260100 * 4"
    using sum_le_count [where f = "\<lambda>p. lo ! (p * 2) + hi ! (p * 2)" and c = 260100 and n = 4, OF be]
    by simp_all
  have L1: "for_lt 0 4 1
           (\<lambda>p pixel_sum. do {
              p2 \<leftarrow> cint (p * 2);
              t \<leftarrow> cint (pixel_sum + lo ! nat p2);
              cint (t + hi ! nat p2)
            })
           0
         = Some (4, ?E)"
    using blo bhi by (rule even_lanes_loop)
  have L2: "for_lt 0 8 1
           (\<lambda>p pixel_sum. do {
              base \<leftarrow> cint (p * 4);
              ib \<leftarrow> cint (i + base);
              idx \<leftarrow> cint (ib + 2);
              ai \<leftarrow> rd a idx;
              bi \<leftarrow> rd b idx;
              db \<leftarrow> cint (uint ai - uint bi);
              dd \<leftarrow> cint (db * db);
              cint (pixel_sum + dd)
            })
           ?E
         = Some (8, ?E + ?B)"
    using blue_loop [of i a b ?E] i0 fit len E by (simp add: i_def)
  have "?E = (\<Sum>p<4. (sq_diff a b (nat i + 2 * (p * 2)) + sq_diff a b (nat i + 2 * (p * 2) + 1))
             + (sq_diff a b (nat i + 16 + 2 * (p * 2)) + sq_diff a b (nat i + 16 + 2 * (p * 2) + 1)))"
    by (rule sum.cong) (simp_all add: nlo nhi)
  then have P: "?E + ?B = row_sum a b (nat i) 8"
    by (simp only: row_sum_8_v2)
  show ?thesis
    unfolding v2_block_def Let_def
    by (simp only: c1 c2 la lb slo shi L1 L2 P set1_add bind.bind_lunit prod.case i_def [symmetric])
qed

lemma v2_tail_row:
  assumes rs: "0 \<le> rs" "rs + 4 * int w \<le> INT_MAX + 2"
    and len: "rs + 4 * int w \<le> int (length a)" "rs + 4 * int w \<le> int (length b)"
    and x0: "x0 \<le> w"
  shows "for_lt (int x0) (int w) 1 (v2_tail_pixel a b rs) (mm256_set1_epi32 t)
         = Some (int w, mm256_set1_epi32 (t + row_sum a b (nat rs + x0 * 4) (w - x0)))"
proof -
  let ?f = "\<lambda>n. mm256_set1_epi32 (t + row_sum a b (nat rs + x0 * 4) n)"
  have step: "v2_tail_pixel a b rs (int x0 + int n * 1) (?f n) = Some (?f (Suc n))"
    if n: "n < w - x0" for n
  proof -
    let ?x = "int x0 + int n"
    have xw: "?x < int w" using n by linarith
    have i: "0 \<le> rs + ?x * 4" "rs + ?x * 4 + 2 < int (length a)"
      "rs + ?x * 4 + 2 < int (length b)" "rs + ?x * 4 + 2 \<le> INT_MAX"
      using rs len xw by simp_all
    have c1: "cint (?x * 4) = Some (?x * 4)"
      using rs xw by (intro cint_Some) (simp_all add: INT_MAX_def)
    have c2: "cint (rs + ?x * 4) = Some (rs + ?x * 4)"
      using rs xw by (intro cint_Some) (simp_all add: INT_MAX_def)
    have "nat (rs + ?x * 4) = nat rs + x0 * 4 + n * 4"
      using rs(1) by (simp add: nat_add_distrib nat_mult_distrib)
    then have p: "pixel_ssd a b (rs + ?x * 4) = Some (rgb_ssd a b (nat rs + x0 * 4 + n * 4))"
      using pixel_ssd_Some [OF i] by simp
    show ?thesis
      using c1 c2 p by (simp add: v2_tail_pixel_def row_sum_def set1_add add.assoc)
  qed
  have "for_lt (int x0) (int w) 1 (v2_tail_pixel a b rs) (?f 0)
        = Some (int x0 + int (w - x0) * 1, ?f (w - x0))"
    by (rule for_lt_run [where f = ?f]) (use step x0 in simp_all)
  then show ?thesis using x0 by (simp add: row_sum_def)
qed

lemma v2_row:
  assumes rs: "0 \<le> rs" "rs + 4 * int w \<le> INT_MAX + 2"
    and len: "rs + 4 * int w \<le> int (length a)" "rs + 4 * int w \<le> int (length b)"
    and t: "0 \<le> t0" "t0 + 195075 * int w < 2 ^ 62"
  shows "do {
            lim \<leftarrow> cint (int w - 8);
            (x, acc) \<leftarrow> for_le 0 lim 8 (v2_block a b rs) (mm256_set1_epi32 t0);
            (_, acc) \<leftarrow> for_lt x (int w) 1 (v2_tail_pixel a b rs) acc;
            Some acc
          } = Some (mm256_set1_epi32 (t0 + row_sum a b (nat rs) w))"
proof -
  define N where "N = w div 8"
  have N: "N * 8 \<le> w" by (simp add: N_def)
  have c: "cint (int w - 8) = Some (int w - 8)"
    using rs by (intro cint_Some) (simp_all add: INT_MAX_def)
  have blk: "v2_block a b rs (int n * 8) (mm256_set1_epi32 t')
             = Some (mm256_set1_epi32 (t' + row_sum a b (nat rs + n * 32) 8))"
    if "n < N" "0 \<le> t'" "t' < 2 ^ 62" for n t'
  proof -
    have "nat (rs + int n * 8 * 4) = nat rs + n * 32"
      using rs(1) by (simp add: nat_add_distrib nat_mult_distrib)
    moreover have n8: "n < w div 8" using that(1) by (simp add: N_def)
    moreover have "rs + int n * 8 * 4 + 30 \<le> INT_MAX"
      using row_offsets_int [OF rs(1) rs(2) n8] .
    moreover have "rs + int n * 8 * 4 + 32 \<le> int (length a)"
      using row_offsets [OF rs(1) len(1) n8] .
    moreover have "rs + int n * 8 * 4 + 32 \<le> int (length b)"
      using row_offsets [OF rs(1) len(2) n8] .
    ultimately show ?thesis
      using v2_block_Some [of "int n * 8" rs a b t'] that rs(1) by simp
  qed
  have le: "195075 * int (N * 8) \<le> 195075 * int w" using N by simp
  have L1: "for_lt 0 (int w - 8 + 1) 8 (v2_block a b rs) (mm256_set1_epi32 t0)
            = Some (int N * 8, mm256_set1_epi32 (t0 + row_sum a b (nat rs) (N * 8)))"
  proof (rule simd_loop [where E = mm256_set1_epi32, OF blk])
    show "int w - 8 + 1 \<le> int N * 8" unfolding N_def by linarith
    show "int n * 8 < int w - 8 + 1" if "n < N" for n using that unfolding N_def by linarith
    show "0 \<le> t0" by (rule t)
    show "t0 + 195075 * int (N * 8) < 2 ^ 62" using t le by linarith
  qed
  have L2: "for_lt (int (N * 8)) (int w) 1 (v2_tail_pixel a b rs)
              (mm256_set1_epi32 (t0 + row_sum a b (nat rs) (N * 8)))
            = Some (int w, mm256_set1_epi32
                (t0 + row_sum a b (nat rs) (N * 8) + row_sum a b (nat rs + N * 8 * 4) (w - N * 8)))"
    by (rule v2_tail_row [OF rs len N])
  have "row_sum a b (nat rs) w = row_sum a b (nat rs) (N * 8) + row_sum a b (nat rs + N * 8 * 4) (w - N * 8)"
    using row_sum_append [of a b "nat rs" "N * 8" "w - N * 8"] N by simp
  then show ?thesis using L1 L2 by (simp add: c for_le_def add.assoc)
qed

lemma hsum_loop:
  assumes "- 2147483648 \<le> v" "v \<le> 2147483647"
  shows "for_lt 0 8 1 (\<lambda>i tot. cint64 (tot + replicate 8 v ! nat i)) 0 = Some (8, 8 * v)"
proof -
  let ?f = "\<lambda>n. int n * v"
  have step: "cint64 (?f n + replicate 8 v ! nat (0 + int n * 1)) = Some (?f (Suc n))"
    if n: "n < 8" for n
  proof -
    have "\<bar>int n * v\<bar> \<le> 8 * 2147483648"
      unfolding abs_mult using n assms by (intro mult_mono) simp_all
    then have "- 17179869184 \<le> int n * v" "int n * v \<le> 17179869184" by linarith+
    then have "cint64 (?f n + v) = Some (?f n + v)"
      using assms by (intro cint64_Some) simp_all
    then show ?thesis using n by (simp add: algebra_simps)
  qed
  have "for_lt 0 8 1 (\<lambda>i tot. cint64 (tot + replicate 8 v ! nat i)) (?f 0)
        = Some (0 + int 8 * 1, ?f 8)"
    by (rule for_lt_run [where f = ?f]) (use step in simp_all)
  then show ?thesis by simp
qed

lemma v2_result:
  assumes "in_range a b stride width height" and "offsets_fit stride width height"
  shows "ssd_avx2_v2 a b stride width height
         = Some (8 * sint (word_of_int (ssd_sum a b (nat stride) (nat width) (nat height)) :: 32 word))"
proof -
  define w h where "w = nat width" and "h = nat height"
  have wh: "width = int w" "height = int h"
    using assms(1) by (simp_all add: in_range_def w_def h_def)
  have geom: "in_range a b stride (int w) (int h)" using assms(1) wh by simp
  have fit: "(int h - 1) * stride + int w * 4 \<le> INT_MAX + 2"
    using assms(2) wh by (simp add: offsets_fit_limit)
  define v where "v = sint (word_of_int (ssd_sum a b (nat stride) w h) :: 32 word)"
  have vb: "- 2147483648 \<le> v" "v \<le> 2147483647"
    using sint_ge [of "word_of_int (ssd_sum a b (nat stride) w h) :: 32 word"]
      sint_lt [of "word_of_int (ssd_sum a b (nat stride) w h) :: 32 word"]
    by (simp_all add: v_def)
  have rows: "for_lt 0 (int h) 1
          (\<lambda>y acc. do {
            row_start \<leftarrow> cint (y * stride);
            lim \<leftarrow> cint (int w - 8);
            (x, acc) \<leftarrow> for_le 0 lim 8 (v2_block a b row_start) acc;
            (_, acc) \<leftarrow> for_lt x (int w) 1 (v2_tail_pixel a b row_start) acc;
            Some acc
          }) (mm256_set1_epi32 0)
        = Some (int h, mm256_set1_epi32 (ssd_sum a b (nat stride) w h))"
    apply (rule kernel_rows [where E = mm256_set1_epi32 and e = 0, OF geom])
      apply (use fit in simp)
     apply simp
    apply (rule v2_row; simp)
    done
  have "\<bar>8 * v\<bar> < 2 ^ 53" using vb by simp
  then have d: "double_of_int (8 * v) = 8 * v" by (rule double_of_int_exact)
  show ?thesis
    using rows hsum_loop [OF vb] d
    by (simp add: ssd_avx2_v2_def wh setzero_set1 store_set1 v_def [symmetric]
        w_def [symmetric] h_def [symmetric])
qed

section \<open>Properties of the specified sum\<close>

lemma ssd_sum_cong:
  assumes "\<And>y x c. y < h \<Longrightarrow> x < w \<Longrightarrow> c < 3 \<Longrightarrow>
             a' ! (y * s + x * 4 + c) = a ! (y * s + x * 4 + c) \<and>
             b' ! (y * s + x * 4 + c) = b ! (y * s + x * 4 + c)"
  shows "ssd_sum a' b' s w h = ssd_sum a b s w h"
proof -
  have "rgb_ssd a' b' (y * s + x * 4) = rgb_ssd a b (y * s + x * 4)" if "y < h" "x < w" for y x
    using assms [OF that, of 0] assms [OF that, of 1] assms [OF that, of 2]
    by (simp add: rgb_ssd_def sq_diff_def)
  then show ?thesis by (simp add: ssd_sum_def row_sum_def)
qed

lemma ssd_sum_same: "ssd_sum a a s w h = 0"
  by (simp add: ssd_sum_def row_sum_def rgb_ssd_def sq_diff_def)

lemma ssd_sum_split:
  assumes "h1 * s \<le> length a" "h1 * s \<le> length b"
  shows "ssd_sum a b s w (h1 + h2)
         = ssd_sum a b s w h1 + ssd_sum (drop (h1 * s) a) (drop (h1 * s) b) s w h2"
proof -
  have px: "rgb_ssd (drop (h1 * s) a) (drop (h1 * s) b) i = rgb_ssd a b (h1 * s + i)" for i
    using assms by (simp add: rgb_ssd_def sq_diff_def add.assoc)
  have "ssd_sum a b s w (h1 + h2)
        = ssd_sum a b s w h1 + (\<Sum>y<h2. row_sum a b ((h1 + y) * s) w)"
    by (induction h2) (simp_all add: ssd_sum_def)
  also have "(\<Sum>y<h2. row_sum a b ((h1 + y) * s) w)
             = ssd_sum (drop (h1 * s) a) (drop (h1 * s) b) s w h2"
    by (simp add: ssd_sum_def row_sum_def px algebra_simps)
  finally show ?thesis .
qed

lemma sq_diff_zero_iff: "sq_diff a b i = 0 \<longleftrightarrow> a ! i = b ! i"
  by (simp add: sq_diff_def word_uint_eq_iff)

lemma rgb_ssd_zero_iff:
  "rgb_ssd a b i = 0 \<longleftrightarrow> a ! i = b ! i \<and> a ! (i + 1) = b ! (i + 1) \<and> a ! (i + 2) = b ! (i + 2)"
  using sq_diff_bounds(1) [of a b i] sq_diff_bounds(1) [of a b "i + 1"]
    sq_diff_bounds(1) [of a b "i + 2"]
    sq_diff_zero_iff [of a b i] sq_diff_zero_iff [of a b "i + 1"] sq_diff_zero_iff [of a b "i + 2"]
  unfolding rgb_ssd_def by linarith

lemma ssd_sum_zero_iff:
  "ssd_sum a b s w h = 0 \<longleftrightarrow>
   (\<forall>y<h. \<forall>x<w. a ! (y * s + x * 4) = b ! (y * s + x * 4) \<and>
                  a ! (y * s + x * 4 + 1) = b ! (y * s + x * 4 + 1) \<and>
                  a ! (y * s + x * 4 + 2) = b ! (y * s + x * 4 + 2))"
proof -
  have "ssd_sum a b s w h = 0 \<longleftrightarrow> (\<forall>y<h. row_sum a b (y * s) w = 0)"
    unfolding ssd_sum_def by (subst sum_nonneg_eq_0_iff) (auto simp: row_sum_bounds)
  also have "\<dots> \<longleftrightarrow> (\<forall>y<h. \<forall>x<w. rgb_ssd a b (y * s + x * 4) = 0)"
    unfolding row_sum_def by (subst sum_nonneg_eq_0_iff) (auto simp: rgb_ssd_bounds)
  finally show ?thesis by (simp add: rgb_ssd_zero_iff)
qed

section \<open>Bounds of the results\<close>

lemma kernel_bounds:
  assumes "valid_input a b stride width height" and "batch_offsets_fit stride width height"
  shows "\<exists>v. ssd_scalar a b stride width height = Some v
           \<and> ssd_avx2 a b stride width height = Some v
           \<and> ssd_avx2_simple a b stride width height = Some v
           \<and> 0 \<le> v \<and> v \<le> 195075 * width * height \<and> v < 2 ^ 53 \<and> double_of_int v = v"
proof -
  let ?v = "ssd_sum a b (nat stride) (nat width) (nat height)"
  have r: "in_range a b stride width height" using assms(1) by (rule valid_in_range)
  have f: "offsets_fit stride width height"
    using assms(2) by (rule batch_offsets_fit_offsets_fit)
  have pos: "0 < width" "0 \<le> height" "width * 4 \<le> stride"
    "(height - 1) * stride + width * 4 \<le> INT_MAX + 2"
    using assms(1) f by (simp_all add: valid_input_def offsets_fit_limit)
  have b: "0 \<le> ?v" "?v \<le> 195075 * width * height"
    using ssd_sum_bounds [of a b "nat stride" "nat width" "nat height"] pos by simp_all
  have "195075 * width * height < 2 ^ 47" using pos by (rule pixels_fit)
  then have lt: "?v < 2 ^ 53" using b by simp
  then have "double_of_int ?v = ?v" using b by (intro double_of_int_exact) simp
  then show ?thesis
    using scalar_correct [OF r f] avx2_correct [OF r f] simple_correct [OF r assms(2)] b lt
    by simp
qed

section \<open>Evaluation of the loops at given inputs\<close>

lemmas kernel_eval =
  for_lt.simps for_le_def tail_pixel_def v2_tail_pixel_def pixel_ssd_def cint_def cint64_def
  rd_def INT_MAX_def dadd_def double_of_int_exact signed_divide_int_def

text \<open>
  The condition on the offsets is weaker than \<open>stride * height \<le> INT_MAX\<close>: two rows of
  \<open>2 ^ 30 + 8\<close> bytes, one pixel wide, have \<open>stride * height > INT_MAX\<close>, and the greatest
  offset computed is \<open>2 ^ 30 + 10\<close>.
\<close>

lemma large_stride_accepted:
  "valid_input (replicate 2147483664 0) (replicate 2147483664 0) 1073741832 1 2
   \<and> batch_offsets_fit 1073741832 1 2
   \<and> \<not> 1073741832 * 2 \<le> INT_MAX
   \<and> ssd_scalar (replicate 2147483664 0) (replicate 2147483664 0) 1073741832 1 2 = Some 0"
  by (simp add: valid_input_def batch_offsets_fit_def last_offset_def ssd_scalar_def kernel_eval)

section \<open>The properties of the specification\<close>

text \<open>
  C1. The specification says that on every valid input (buffers of at least
  \<open>stride * height\<close> bytes, \<open>stride \<ge> width * 4\<close>, positive width and height) the kernels
  \<^verbatim>\<open>ssd_avx2\<close> and \<^verbatim>\<open>ssd_avx2_simple\<close> return exactly the value of \<^verbatim>\<open>ssd_scalar\<close>. The
  kernels compute byte offsets in \<^verbatim>\<open>int\<close>: on an image of three rows of \<open>2 ^ 30\<close> bytes,
  one pixel wide, \<^verbatim>\<open>y * stride\<close> overflows in the third row and no kernel returns a value.
\<close>

theorem avx2_kernels_equal_scalar_counterexample:
  "valid_input (replicate 3221225472 0) (replicate 3221225472 0) 1073741824 1 3
   \<and> ssd_scalar (replicate 3221225472 0) (replicate 3221225472 0) 1073741824 1 3 = None
   \<and> ssd_avx2 (replicate 3221225472 0) (replicate 3221225472 0) 1073741824 1 3 = None
   \<and> ssd_avx2_simple (replicate 3221225472 0) (replicate 3221225472 0) 1073741824 1 3 = None"
  by (simp add: valid_input_def ssd_scalar_def ssd_avx2_def ssd_avx2_simple_def kernel_eval)

text \<open>
  C1, amended. For every valid input on which the byte offsets that the three kernels
  compute are \<^verbatim>\<open>int\<close> values (the greatest is that of the last sample read,
  \<open>(height - 1) * stride + (width - 1) * 4 + 2\<close>, and one more for \<^verbatim>\<open>ssd_avx2_simple\<close>
  when the width is a multiple of 8), \<^verbatim>\<open>ssd_avx2\<close> and \<^verbatim>\<open>ssd_avx2_simple\<close> return a
  value, and it is exactly the value that \<^verbatim>\<open>ssd_scalar\<close> returns on the same input.
\<close>

theorem avx2_kernels_equal_scalar:
  assumes "valid_input a b stride width height" and "batch_offsets_fit stride width height"
  shows "\<exists>v. ssd_scalar a b stride width height = Some v
           \<and> ssd_avx2 a b stride width height = Some v
           \<and> ssd_avx2_simple a b stride width height = Some v"
  using scalar_correct [OF valid_in_range [OF assms(1)] batch_offsets_fit_offsets_fit [OF assms(2)]]
    avx2_correct [OF valid_in_range [OF assms(1)] batch_offsets_fit_offsets_fit [OF assms(2)]]
    simple_correct [OF valid_in_range [OF assms(1)] assms(2)]
  by simp

theorem avx2_kernels_equal_scalar_witness:
  "valid_input (replicate 40 7 @ replicate 32 200) (replicate 30 9 @ replicate 42 1) 36 9 2
   \<and> batch_offsets_fit 36 9 2
   \<and> valid_input (replicate 64 250) (replicate 64 3) 32 8 2
   \<and> batch_offsets_fit 32 8 2
   \<and> (\<exists>v. ssd_scalar (replicate 40 7 @ replicate 32 200) (replicate 30 9 @ replicate 42 1) 36 9 2
            = Some v
        \<and> ssd_avx2 (replicate 40 7 @ replicate 32 200) (replicate 30 9 @ replicate 42 1) 36 9 2
            = Some v
        \<and> ssd_avx2_simple (replicate 40 7 @ replicate 32 200) (replicate 30 9 @ replicate 42 1) 36 9 2
            = Some v)
   \<and> (\<exists>v. ssd_scalar (replicate 64 250) (replicate 64 3) 32 8 2 = Some v
        \<and> ssd_avx2 (replicate 64 250) (replicate 64 3) 32 8 2 = Some v
        \<and> ssd_avx2_simple (replicate 64 250) (replicate 64 3) 32 8 2 = Some v)"
proof -
  have v1: "valid_input (replicate 40 7 @ replicate 32 200) (replicate 30 9 @ replicate 42 1) 36 9 2"
    and v2: "valid_input (replicate 64 250) (replicate 64 3) 32 8 2"
    by (simp_all add: valid_input_def)
  have f1: "batch_offsets_fit 36 9 2" and f2: "batch_offsets_fit 32 8 2"
    by (simp_all add: batch_offsets_fit_def last_offset_def INT_MAX_def)
  show ?thesis
    using v1 f1 v2 f2 avx2_kernels_equal_scalar [OF v1 f1] avx2_kernels_equal_scalar [OF v2 f2]
    by (intro conjI)
qed

text \<open>
  C2. The specification says that on every valid input \<^verbatim>\<open>ssd_scalar\<close> returns the sum of
  the squared R, G and B differences over all pixels. On an image of three rows of
  \<open>2 ^ 30\<close> bytes, one pixel wide, \<^verbatim>\<open>y * stride\<close> overflows \<^verbatim>\<open>int\<close> in the third row and
  \<^verbatim>\<open>ssd_scalar\<close> returns no value.
\<close>

theorem ssd_scalar_sum_counterexample:
  "valid_input (replicate 3221225472 0) (replicate 3221225472 0) 1073741824 1 3
   \<and> ssd_scalar (replicate 3221225472 0) (replicate 3221225472 0) 1073741824 1 3 = None"
  by (simp add: valid_input_def ssd_scalar_def kernel_eval)

text \<open>
  C2, amended. For every valid input on which the offset of the last sample read,
  \<open>(height - 1) * stride + (width - 1) * 4 + 2\<close>, is an \<^verbatim>\<open>int\<close> value, \<^verbatim>\<open>ssd_scalar\<close>
  returns the sum, over the rows \<open>y\<close> and the pixels \<open>x\<close> of each row, of the squared
  differences of the R, G and B samples of the pixel at byte offset \<open>y * stride + x * 4\<close>;
  the alpha sample, at offset 3 of the pixel, is no part of it.
\<close>

theorem ssd_scalar_sum:
  assumes "valid_input a b stride width height" and "offsets_fit stride width height"
  shows "ssd_scalar a b stride width height
         = Some (\<Sum>y<nat height. \<Sum>x<nat width.
                   (uint (a ! (y * nat stride + x * 4)) - uint (b ! (y * nat stride + x * 4)))\<^sup>2
                 + (uint (a ! (y * nat stride + x * 4 + 1)) - uint (b ! (y * nat stride + x * 4 + 1)))\<^sup>2
                 + (uint (a ! (y * nat stride + x * 4 + 2)) - uint (b ! (y * nat stride + x * 4 + 2)))\<^sup>2)"
  using scalar_correct [OF valid_in_range [OF assms(1)] assms(2)]
  by (simp add: ssd_sum_def row_sum_def rgb_ssd_def sq_diff_def add.assoc)

theorem ssd_scalar_sum_witness:
  "valid_input [3, 0, 0, 9, 7, 1, 2, 3, 4, 0] [0, 4, 0, 0, 0, 1, 2, 5, 0, 9] 5 1 2
   \<and> offsets_fit 5 1 2
   \<and> ssd_scalar [3, 0, 0, 9, 7, 1, 2, 3, 4, 0] [0, 4, 0, 0, 0, 1, 2, 5, 0, 9] 5 1 2 = Some 29"
proof -
  have v: "valid_input [3, 0, 0, 9, 7, 1, 2, 3, 4, 0] [0, 4, 0, 0, 0, 1, 2, 5, 0, 9] 5 1 2"
    by (simp add: valid_input_def)
  have f: "offsets_fit 5 1 2"
    by (simp add: offsets_fit_def last_offset_def INT_MAX_def)
  show ?thesis
    using v f ssd_scalar_sum [OF v f] by (simp add: lessThan_nat_numeral lessThan_Suc)
qed

text \<open>
  C3. The specification says that \<^verbatim>\<open>ssd_avx2_v2\<close> returns the value of \<^verbatim>\<open>ssd_scalar\<close> on
  every valid input. The kernel writes each sum to all eight lanes of its accumulator and
  adds the eight lanes at the end: on the image of one pixel with the one difference 1
  the scalar kernel returns 1 and \<^verbatim>\<open>ssd_avx2_v2\<close> returns 8.
\<close>

theorem ssd_avx2_v2_eightfold:
  "ssd_scalar [1, 0, 0, 0] [0, 0, 0, 0] 4 1 1 = Some 1
   \<and> ssd_avx2_v2 [1, 0, 0, 0] [0, 0, 0, 0] 4 1 1 = Some 8"
proof -
  have r: "in_range [1, 0, 0, 0] [0, 0, 0, 0] 4 1 1"
    by (simp add: in_range_def)
  have f: "offsets_fit 4 1 1"
    by (simp add: offsets_fit_def last_offset_def INT_MAX_def)
  have s: "ssd_sum [1, 0, 0, 0] [0, 0, 0, 0] 4 1 1 = 1"
    by (simp add: ssd_sum_def row_sum_def rgb_ssd_def sq_diff_def)
  show ?thesis
    using scalar_correct [OF r f] v2_result [OF r f] s by simp
qed

text \<open>
  C4. The specification says that on any two valid images a change of alpha samples
  changes the value of neither \<^verbatim>\<open>ssd_scalar\<close> nor \<^verbatim>\<open>ssd_avx2\<close>. On an image of three rows
  of \<open>2 ^ 30\<close> bytes, one pixel wide, \<^verbatim>\<open>y * stride\<close> overflows \<^verbatim>\<open>int\<close> in the third row: the
  two kernels return no value, with the alpha sample of the first pixel 0 and with 255.
\<close>

theorem alpha_invariance_counterexample:
  "valid_input (replicate 3221225472 0) (replicate 3221225472 0) 1073741824 1 3
   \<and> valid_input ((replicate 3221225472 0)[3 := 255]) (replicate 3221225472 0) 1073741824 1 3
   \<and> ssd_scalar (replicate 3221225472 0) (replicate 3221225472 0) 1073741824 1 3 = None
   \<and> ssd_scalar ((replicate 3221225472 0)[3 := 255]) (replicate 3221225472 0) 1073741824 1 3 = None
   \<and> ssd_avx2 (replicate 3221225472 0) (replicate 3221225472 0) 1073741824 1 3 = None
   \<and> ssd_avx2 ((replicate 3221225472 0)[3 := 255]) (replicate 3221225472 0) 1073741824 1 3 = None"
  by (simp add: valid_input_def ssd_scalar_def ssd_avx2_def kernel_eval)

text \<open>
  C4, amended. Alpha invariance, as a statement about two runs on inputs on which the
  offset of the last sample read, \<open>(height - 1) * stride + (width - 1) * 4 + 2\<close>, is an
  \<^verbatim>\<open>int\<close> value: when the buffers of a second valid input agree with those of the first on
  the R, G and B samples of every pixel (the alpha samples, at offset 3 of each pixel, may
  have any value in either), then \<^verbatim>\<open>ssd_scalar\<close> returns the same value in both runs, and
  so does \<^verbatim>\<open>ssd_avx2\<close>.
\<close>

theorem alpha_invariance:
  assumes "valid_input a b stride width height"
    and "valid_input a' b' stride width height"
    and "offsets_fit stride width height"
    and "\<forall>y<nat height. \<forall>x<nat width. \<forall>c<3.
           a' ! (y * nat stride + x * 4 + c) = a ! (y * nat stride + x * 4 + c) \<and>
           b' ! (y * nat stride + x * 4 + c) = b ! (y * nat stride + x * 4 + c)"
  shows "\<exists>v. ssd_scalar a b stride width height = Some v
           \<and> ssd_scalar a' b' stride width height = Some v
           \<and> ssd_avx2 a b stride width height = Some v
           \<and> ssd_avx2 a' b' stride width height = Some v"
proof -
  have "ssd_sum a' b' (nat stride) (nat width) (nat height)
        = ssd_sum a b (nat stride) (nat width) (nat height)"
    using assms(4) by (intro ssd_sum_cong) simp
  then show ?thesis
    using scalar_correct [OF valid_in_range [OF assms(1)] assms(3)]
      scalar_correct [OF valid_in_range [OF assms(2)] assms(3)]
      avx2_correct [OF valid_in_range [OF assms(1)] assms(3)]
      avx2_correct [OF valid_in_range [OF assms(2)] assms(3)]
    by simp
qed

theorem alpha_invariance_witness:
  "valid_input (replicate 40 7 @ replicate 32 200) (replicate 30 9 @ replicate 42 1) 36 9 2
   \<and> valid_input ((replicate 40 7 @ replicate 32 200)[3 := 0, 71 := 1])
        ((replicate 30 9 @ replicate 42 1)[47 := 255]) 36 9 2
   \<and> offsets_fit 36 9 2
   \<and> (\<exists>v. ssd_scalar (replicate 40 7 @ replicate 32 200) (replicate 30 9 @ replicate 42 1) 36 9 2
            = Some v
        \<and> ssd_scalar ((replicate 40 7 @ replicate 32 200)[3 := 0, 71 := 1])
            ((replicate 30 9 @ replicate 42 1)[47 := 255]) 36 9 2 = Some v
        \<and> ssd_avx2 (replicate 40 7 @ replicate 32 200) (replicate 30 9 @ replicate 42 1) 36 9 2
            = Some v
        \<and> ssd_avx2 ((replicate 40 7 @ replicate 32 200)[3 := 0, 71 := 1])
            ((replicate 30 9 @ replicate 42 1)[47 := 255]) 36 9 2 = Some v)"
proof -
  let ?a = "replicate 40 7 @ replicate 32 200 :: buffer"
  let ?b = "replicate 30 9 @ replicate 42 1 :: buffer"
  have v1: "valid_input ?a ?b 36 9 2"
    and v2: "valid_input (?a[3 := 0, 71 := 1]) (?b[47 := 255]) 36 9 2"
    by (simp_all add: valid_input_def)
  have f: "offsets_fit 36 9 2"
    by (simp add: offsets_fit_def last_offset_def INT_MAX_def)
  have no_alpha: "y * 36 + x * 4 + c \<noteq> 3 \<and> y * 36 + x * 4 + c \<noteq> 71 \<and> y * 36 + x * 4 + c \<noteq> 47"
    if "c < 3" for y x c :: nat
    using that by presburger
  have agree: "\<forall>y<nat 2. \<forall>x<nat 9. \<forall>c<3.
           (?a[3 := 0, 71 := 1]) ! (y * nat 36 + x * 4 + c) = ?a ! (y * nat 36 + x * 4 + c) \<and>
           (?b[47 := 255]) ! (y * nat 36 + x * 4 + c) = ?b ! (y * nat 36 + x * 4 + c)"
    using no_alpha by (simp add: nth_list_update)
  show ?thesis
    using v1 v2 f alpha_invariance [OF v1 v2 f agree] by (intro conjI)
qed

text \<open>
  C5. The scenario of one full batch: width 8, height 1, stride 32, the first image all
  zero and every pixel of the second (10, 20, 30, 255). The specification says that each of the
  four kernels returns 11200. \<^verbatim>\<open>ssd_scalar\<close>, \<^verbatim>\<open>ssd_avx2\<close> and
  \<^verbatim>\<open>ssd_avx2_simple\<close> do; \<^verbatim>\<open>ssd_avx2_v2\<close> returns 89600, eight times as much.
\<close>

theorem scenario_one_lane:
  "ssd_scalar (replicate 32 0) (concat (replicate 8 [10, 20, 30, 255])) 32 8 1 = Some 11200
   \<and> ssd_avx2 (replicate 32 0) (concat (replicate 8 [10, 20, 30, 255])) 32 8 1 = Some 11200
   \<and> ssd_avx2_simple (replicate 32 0) (concat (replicate 8 [10, 20, 30, 255])) 32 8 1 = Some 11200
   \<and> ssd_avx2_v2 (replicate 32 0) (concat (replicate 8 [10, 20, 30, 255])) 32 8 1 = Some 89600"
proof -
  let ?a = "replicate 32 0 :: buffer"
  let ?b = "concat (replicate 8 [10, 20, 30, 255]) :: buffer"
  have b: "?b = [10, 20, 30, 255, 10, 20, 30, 255, 10, 20, 30, 255, 10, 20, 30, 255,
                 10, 20, 30, 255, 10, 20, 30, 255, 10, 20, 30, 255, 10, 20, 30, 255]"
    by (simp add: numeral_eq_Suc)
  have r: "in_range ?a ?b 32 8 1"
    by (simp add: in_range_def b)
  have f: "offsets_fit 32 8 1" and fb: "batch_offsets_fit 32 8 1"
    by (simp_all add: offsets_fit_def batch_offsets_fit_def last_offset_def INT_MAX_def)
  have s: "ssd_sum ?a ?b 32 8 1 = 11200"
    unfolding b by (simp add: ssd_sum_def row_sum_def rgb_ssd_def sq_diff_def sum_upto8)
  have n: "nat 32 = 32" "nat 8 = 8" "nat 1 = 1" by simp_all
  have w: "sint (word_of_int 11200 :: 32 word) = 11200" by simp
  show ?thesis
    using scalar_correct [OF r f] avx2_correct [OF r f] simple_correct [OF r fb] v2_result [OF r f]
    unfolding n s w by simp
qed

text \<open>
  C6. The specification says that for every valid input and every split of the height
  into \<open>h1 + h2\<close> the values of \<^verbatim>\<open>ssd_scalar\<close> on the two row tiles add up to its value on
  the whole image, and the same for \<^verbatim>\<open>ssd_avx2\<close>. On an image of three rows of \<open>2 ^ 30\<close>
  bytes, one pixel wide, the tile of the first row and the tile of the other two give 0
  and 0, and on the whole image \<^verbatim>\<open>y * stride\<close> overflows \<^verbatim>\<open>int\<close> in the third row: the
  kernels return no value.
\<close>

theorem row_tiling_additive_counterexample:
  "valid_input (replicate 3221225472 0) (replicate 3221225472 0) 1073741824 1 (1 + 2)
   \<and> ssd_scalar (replicate 3221225472 0) (replicate 3221225472 0) 1073741824 1 1 = Some 0
   \<and> ssd_scalar (drop (nat (1 * 1073741824)) (replicate 3221225472 0))
        (drop (nat (1 * 1073741824)) (replicate 3221225472 0)) 1073741824 1 2 = Some 0
   \<and> ssd_scalar (replicate 3221225472 0) (replicate 3221225472 0) 1073741824 1 (1 + 2) = None
   \<and> ssd_avx2 (replicate 3221225472 0) (replicate 3221225472 0) 1073741824 1 1 = Some 0
   \<and> ssd_avx2 (drop (nat (1 * 1073741824)) (replicate 3221225472 0))
        (drop (nat (1 * 1073741824)) (replicate 3221225472 0)) 1073741824 1 2 = Some 0
   \<and> ssd_avx2 (replicate 3221225472 0) (replicate 3221225472 0) 1073741824 1 (1 + 2) = None"
  by (simp add: valid_input_def ssd_scalar_def ssd_avx2_def kernel_eval)

text \<open>
  C6, amended. Additivity under row tiling: for a valid input of height \<open>h1 + h2\<close> with
  \<open>h1, h2 \<ge> 0\<close> on which the offset of the last sample read,
  \<open>(h1 + h2 - 1) * stride + (width - 1) * 4 + 2\<close>, is an \<^verbatim>\<open>int\<close> value, the value of
  \<^verbatim>\<open>ssd_scalar\<close> on the first \<open>h1\<close> rows and its value on the other \<open>h2\<close> rows (the
  buffers from byte \<open>h1 * stride\<close> on) add up, as doubles and exactly, to its value on the
  whole image; the same holds for \<^verbatim>\<open>ssd_avx2\<close>.
\<close>

theorem row_tiling_additive:
  assumes "valid_input a b stride width (h1 + h2)" and "offsets_fit stride width (h1 + h2)"
    and "0 \<le> h1" and "0 \<le> h2"
  shows "\<exists>r1 r2.
           ssd_scalar a b stride width h1 = Some r1
           \<and> ssd_scalar (drop (nat (h1 * stride)) a) (drop (nat (h1 * stride)) b) stride width h2
               = Some r2
           \<and> ssd_scalar a b stride width (h1 + h2) = Some (dadd r1 r2)
           \<and> ssd_avx2 a b stride width h1 = Some r1
           \<and> ssd_avx2 (drop (nat (h1 * stride)) a) (drop (nat (h1 * stride)) b) stride width h2
               = Some r2
           \<and> ssd_avx2 a b stride width (h1 + h2) = Some (dadd r1 r2)
           \<and> dadd r1 r2 = r1 + r2"
proof -
  define s w where "s = nat stride" and "w = nat width"
  have st: "0 \<le> stride" "0 < width" "width * 4 \<le> stride"
    and len: "stride * (h1 + h2) \<le> int (length a)" "stride * (h1 + h2) \<le> int (length b)"
    using assms(1) by (simp_all add: valid_input_def)
  have fit: "(h1 + h2 - 1) * stride + width * 4 \<le> INT_MAX + 2"
    using assms(2) by (simp add: offsets_fit_limit)
  have le1: "stride * h1 \<le> stride * (h1 + h2)" and le2: "stride * h2 \<le> stride * (h1 + h2)"
    using st(1) assms(3,4) by (simp_all add: mult_left_mono)
  have whole: "in_range a b stride width (h1 + h2)"
    using assms(1) by (rule valid_in_range)
  have "(h1 - 1) * stride \<le> (h1 + h2 - 1) * stride"
    using st(1) assms(4) by (intro mult_right_mono) simp_all
  then have ftop: "offsets_fit stride width h1"
    using fit unfolding offsets_fit_limit by linarith
  have "(h2 - 1) * stride \<le> (h1 + h2 - 1) * stride"
    using st(1) assms(3) by (intro mult_right_mono) simp_all
  then have fbottom: "offsets_fit stride width h2"
    using fit unfolding offsets_fit_limit by linarith
  have t1: "stride * h1 \<le> int (length a)" "stride * h1 \<le> int (length b)"
    using le1 len by linarith+
  have top: "in_range a b stride width h1"
    using st t1 assms(3) by (simp add: in_range_def)
  have off: "nat (h1 * stride) = nat h1 * s"
    using assms(3) by (simp add: s_def nat_mult_distrib)
  have offl: "nat h1 * s \<le> length a" "nat h1 * s \<le> length b"
    using len le1 st(1) assms(3) off by (simp_all add: mult.commute nat_le_iff)
  have sum_eq: "stride * h2 + h1 * stride = stride * (h1 + h2)" by (simp add: algebra_simps)
  have nn: "0 \<le> h1 * stride" using st(1) assms(3) by simp
  have t2: "stride * h2 \<le> int (length a) - h1 * stride"
    "stride * h2 \<le> int (length b) - h1 * stride"
    using sum_eq len by linarith+
  have nz: "int (nat (h1 * stride)) = h1 * stride" using nn by simp
  have la: "int (length a - nat (h1 * stride)) = int (length a) - h1 * stride"
    and lb: "int (length b - nat (h1 * stride)) = int (length b) - h1 * stride"
    using offl off nz by (simp_all add: of_nat_diff)
  have bottom: "in_range (drop (nat (h1 * stride)) a) (drop (nat (h1 * stride)) b) stride width h2"
    using st t2 assms(4) by (simp add: in_range_def la lb)
  let ?r1 = "ssd_sum a b s w (nat h1)"
  let ?r2 = "ssd_sum (drop (nat h1 * s) a) (drop (nat h1 * s) b) s w (nat h2)"
  have split: "ssd_sum a b s w (nat (h1 + h2)) = ?r1 + ?r2"
    using ssd_sum_split [OF offl, of w "nat h2"] assms(3,4) by (simp add: nat_add_distrib)
  have "195075 * width * (h1 + h2) < 2 ^ 47"
    using pixels_fit [of width "h1 + h2" stride] st fit assms(3,4) by simp
  moreover have "ssd_sum a b s w (nat (h1 + h2)) \<le> 195075 * int w * int (nat (h1 + h2))"
    by (rule ssd_sum_bounds)
  ultimately have "\<bar>?r1 + ?r2\<bar> < 2 ^ 53"
    using ssd_sum_bounds(1) [of a b s w "nat (h1 + h2)"] st assms(3,4) split
    by (simp add: w_def)
  then have d: "dadd ?r1 ?r2 = ?r1 + ?r2"
    unfolding dadd_def by (rule double_of_int_exact)
  show ?thesis
    using scalar_correct [OF top ftop] scalar_correct [OF bottom fbottom]
      scalar_correct [OF whole assms(2)] avx2_correct [OF top ftop]
      avx2_correct [OF bottom fbottom] avx2_correct [OF whole assms(2)] split d
    by (simp add: s_def [symmetric] w_def [symmetric] off)
qed

theorem row_tiling_additive_witness:
  "valid_input (replicate 64 0) (replicate 32 10 @ replicate 32 1) 32 8 (1 + 1)
   \<and> offsets_fit 32 8 (1 + 1)
   \<and> ssd_scalar (replicate 64 0) (replicate 32 10 @ replicate 32 1) 32 8 1 = Some 2400
   \<and> ssd_scalar (drop 32 (replicate 64 0)) (drop 32 (replicate 32 10 @ replicate 32 1)) 32 8 1
       = Some 24
   \<and> ssd_scalar (replicate 64 0) (replicate 32 10 @ replicate 32 1) 32 8 2 = Some 2424
   \<and> ssd_avx2 (replicate 64 0) (replicate 32 10 @ replicate 32 1) 32 8 1 = Some 2400
   \<and> ssd_avx2 (drop 32 (replicate 64 0)) (drop 32 (replicate 32 10 @ replicate 32 1)) 32 8 1
       = Some 24
   \<and> ssd_avx2 (replicate 64 0) (replicate 32 10 @ replicate 32 1) 32 8 2 = Some 2424"
proof -
  let ?a = "replicate 64 0 :: buffer"
  let ?b = "replicate 32 10 @ replicate 32 1 :: buffer"
  have v: "valid_input ?a ?b 32 8 (1 + 1)"
    by (simp add: valid_input_def)
  have f: "offsets_fit 32 8 (1 + 1)" and f1: "offsets_fit 32 8 1"
    by (simp_all add: offsets_fit_def last_offset_def INT_MAX_def)
  have top: "in_range ?a ?b 32 8 1"
    and bottom: "in_range (drop 32 ?a) (drop 32 ?b) 32 8 1"
    by (simp_all add: in_range_def)
  have px1: "rgb_ssd ?a ?b (x * 4) = 300" if "x < 8" for x
    using that by (simp add: rgb_ssd_def sq_diff_def nth_append)
  have px2: "rgb_ssd (replicate 32 0) (replicate 32 1) (x * 4) = 3" if "x < 8" for x
    using that by (simp add: rgb_ssd_def sq_diff_def)
  have s1: "ssd_sum ?a ?b 32 8 1 = 2400"
    by (simp add: ssd_sum_def row_sum_def px1)
  have s2: "ssd_sum (drop 32 ?a) (drop 32 ?b) 32 8 1 = 24"
    by (simp add: ssd_sum_def row_sum_def px2)
  have n: "nat 32 = 32" "nat 8 = 8" "nat 1 = 1" by simp_all
  have r1: "ssd_scalar ?a ?b 32 8 1 = Some 2400" "ssd_avx2 ?a ?b 32 8 1 = Some 2400"
    using scalar_correct [OF top f1] avx2_correct [OF top f1] unfolding n s1 by simp_all
  have r2: "ssd_scalar (drop 32 ?a) (drop 32 ?b) 32 8 1 = Some 24"
    "ssd_avx2 (drop 32 ?a) (drop 32 ?b) 32 8 1 = Some 24"
    using scalar_correct [OF bottom f1] avx2_correct [OF bottom f1] unfolding n s2 by simp_all
  have d: "dadd 2400 24 = 2424"
    by (simp add: dadd_def double_of_int_exact)
  have e: "drop (nat (1 * 32)) ?a = drop 32 ?a" "drop (nat (1 * 32)) ?b = drop 32 ?b"
    "(1 + 1 :: int) = 2"
    by simp_all
  show ?thesis
    using v f r1 r2 d row_tiling_additive [OF v f] unfolding e by auto
qed

text \<open>
  C7. The specification says that with one image as both buffers every kernel returns 0,
  for every valid geometry. On an image of three rows of \<open>2 ^ 30\<close> bytes, one pixel wide,
  \<^verbatim>\<open>y * stride\<close> overflows \<^verbatim>\<open>int\<close> in the third row and none of the four kernels returns a
  value.
\<close>

theorem identity_zero_counterexample:
  "valid_input (replicate 3221225472 0) (replicate 3221225472 0) 1073741824 1 3
   \<and> ssd_scalar (replicate 3221225472 0) (replicate 3221225472 0) 1073741824 1 3 = None
   \<and> ssd_avx2 (replicate 3221225472 0) (replicate 3221225472 0) 1073741824 1 3 = None
   \<and> ssd_avx2_simple (replicate 3221225472 0) (replicate 3221225472 0) 1073741824 1 3 = None
   \<and> ssd_avx2_v2 (replicate 3221225472 0) (replicate 3221225472 0) 1073741824 1 3 = None"
  by (simp add: valid_input_def ssd_scalar_def ssd_avx2_def ssd_avx2_simple_def ssd_avx2_v2_def
      kernel_eval)

text \<open>
  C7, amended. Identity: with one image as both buffers, under a valid geometry on which
  the byte offsets that the kernels compute are \<^verbatim>\<open>int\<close> values (the greatest is
  \<open>(height - 1) * stride + (width - 1) * 4 + 2\<close>, and one more for \<^verbatim>\<open>ssd_avx2_simple\<close>
  when the width is a multiple of 8), each of the four kernels returns exactly 0.
\<close>

theorem identity_zero:
  assumes "valid_input a a stride width height" and "batch_offsets_fit stride width height"
  shows "ssd_scalar a a stride width height = Some 0
         \<and> ssd_avx2 a a stride width height = Some 0
         \<and> ssd_avx2_simple a a stride width height = Some 0
         \<and> ssd_avx2_v2 a a stride width height = Some 0"
  using scalar_correct [OF valid_in_range [OF assms(1)] batch_offsets_fit_offsets_fit [OF assms(2)]]
    avx2_correct [OF valid_in_range [OF assms(1)] batch_offsets_fit_offsets_fit [OF assms(2)]]
    simple_correct [OF valid_in_range [OF assms(1)] assms(2)]
    v2_result [OF valid_in_range [OF assms(1)] batch_offsets_fit_offsets_fit [OF assms(2)]]
  by (simp add: ssd_sum_same)

theorem identity_zero_witness:
  "valid_input (replicate 40 7 @ replicate 32 200) (replicate 40 7 @ replicate 32 200) 36 9 2
   \<and> batch_offsets_fit 36 9 2
   \<and> ssd_scalar (replicate 40 7 @ replicate 32 200) (replicate 40 7 @ replicate 32 200) 36 9 2
       = Some 0
   \<and> ssd_avx2 (replicate 40 7 @ replicate 32 200) (replicate 40 7 @ replicate 32 200) 36 9 2
       = Some 0
   \<and> ssd_avx2_simple (replicate 40 7 @ replicate 32 200) (replicate 40 7 @ replicate 32 200) 36 9 2
       = Some 0
   \<and> ssd_avx2_v2 (replicate 40 7 @ replicate 32 200) (replicate 40 7 @ replicate 32 200) 36 9 2
       = Some 0"
proof -
  have v: "valid_input (replicate 40 7 @ replicate 32 200) (replicate 40 7 @ replicate 32 200) 36 9 2"
    by (simp add: valid_input_def)
  have f: "batch_offsets_fit 36 9 2"
    by (simp add: batch_offsets_fit_def last_offset_def INT_MAX_def)
  show ?thesis
    using v f identity_zero [OF v f] by (intro conjI) simp_all
qed

text \<open>
  C8. The specification says that every kernel, \<^verbatim>\<open>ssd_avx2_v2\<close> included, returns a value between
  0 and \<open>195075 * width * height\<close>. For \<^verbatim>\<open>ssd_scalar\<close>, \<^verbatim>\<open>ssd_avx2\<close> and
  \<^verbatim>\<open>ssd_avx2_simple\<close> that is lemma \<open>kernel_bounds\<close>. On the image of one pixel whose
  three samples differ by 255 the bound is 195075, which \<^verbatim>\<open>ssd_scalar\<close> returns, and
  \<^verbatim>\<open>ssd_avx2_v2\<close> returns 1560600.
\<close>

theorem ssd_avx2_v2_above_bound:
  "ssd_avx2_v2 [255, 255, 255, 0] [0, 0, 0, 0] 4 1 1 = Some 1560600
   \<and> ssd_scalar [255, 255, 255, 0] [0, 0, 0, 0] 4 1 1 = Some 195075
   \<and> 195075 * 1 * 1 < (1560600 :: int)"
proof -
  have r: "in_range [255, 255, 255, 0] [0, 0, 0, 0] 4 1 1"
    by (simp add: in_range_def)
  have f: "offsets_fit 4 1 1"
    by (simp add: offsets_fit_def last_offset_def INT_MAX_def)
  have s: "ssd_sum [255, 255, 255, 0] [0, 0, 0, 0] 4 1 1 = 195075"
    by (simp add: ssd_sum_def row_sum_def rgb_ssd_def sq_diff_def)
  show ?thesis
    using scalar_correct [OF r f] v2_result [OF r f] s by simp
qed

text \<open>
  C9. The specification says that for every valid geometry with \<open>stride > width * 4\<close> a
  change of the bytes between the end of a row's pixels and the next row changes the
  value of neither \<^verbatim>\<open>ssd_scalar\<close> nor \<^verbatim>\<open>ssd_avx2\<close>. On an image of three rows of \<open>2 ^ 30\<close>
  bytes, one pixel wide, \<^verbatim>\<open>y * stride\<close> overflows \<^verbatim>\<open>int\<close> in the third row: the two kernels
  return no value, with the first padding byte 0 and with 1.
\<close>

theorem padding_noninterference_counterexample:
  "valid_input (replicate 3221225472 0) (replicate 3221225472 0) 1073741824 1 3
   \<and> valid_input ((replicate 3221225472 0)[4 := 1]) (replicate 3221225472 0) 1073741824 1 3
   \<and> (1 :: int) * 4 < 1073741824
   \<and> ssd_scalar (replicate 3221225472 0) (replicate 3221225472 0) 1073741824 1 3 = None
   \<and> ssd_scalar ((replicate 3221225472 0)[4 := 1]) (replicate 3221225472 0) 1073741824 1 3 = None
   \<and> ssd_avx2 (replicate 3221225472 0) (replicate 3221225472 0) 1073741824 1 3 = None
   \<and> ssd_avx2 ((replicate 3221225472 0)[4 := 1]) (replicate 3221225472 0) 1073741824 1 3 = None"
  by (simp add: valid_input_def ssd_scalar_def ssd_avx2_def kernel_eval)

text \<open>
  C9, amended. Row padding, as a statement about two runs on inputs on which the offset
  of the last sample read, \<open>(height - 1) * stride + (width - 1) * 4 + 2\<close>, is an \<^verbatim>\<open>int\<close>
  value: when the buffers of a second valid input agree with those of the first on the
  first \<open>width * 4\<close> bytes of every row (the bytes from there to the next row may have any
  value in either), then \<^verbatim>\<open>ssd_scalar\<close> returns the same value in both runs, and so does
  \<^verbatim>\<open>ssd_avx2\<close>.
\<close>

theorem padding_noninterference:
  assumes "valid_input a b stride width height"
    and "valid_input a' b' stride width height"
    and "offsets_fit stride width height"
    and "\<forall>y<nat height. \<forall>k<nat width * 4.
           a' ! (y * nat stride + k) = a ! (y * nat stride + k) \<and>
           b' ! (y * nat stride + k) = b ! (y * nat stride + k)"
  shows "\<exists>v. ssd_scalar a b stride width height = Some v
           \<and> ssd_scalar a' b' stride width height = Some v
           \<and> ssd_avx2 a b stride width height = Some v
           \<and> ssd_avx2 a' b' stride width height = Some v"
proof -
  have "a' ! (y * nat stride + x * 4 + c) = a ! (y * nat stride + x * 4 + c) \<and>
        b' ! (y * nat stride + x * 4 + c) = b ! (y * nat stride + x * 4 + c)"
    if "y < nat height" "x < nat width" "c < 3" for y x c
  proof -
    have "x * 4 + c < nat width * 4" using that by simp
    then show ?thesis using assms(4) that(1) by (simp add: add.assoc)
  qed
  then have "ssd_sum a' b' (nat stride) (nat width) (nat height)
        = ssd_sum a b (nat stride) (nat width) (nat height)"
    by (rule ssd_sum_cong)
  then show ?thesis
    using scalar_correct [OF valid_in_range [OF assms(1)] assms(3)]
      scalar_correct [OF valid_in_range [OF assms(2)] assms(3)]
      avx2_correct [OF valid_in_range [OF assms(1)] assms(3)]
      avx2_correct [OF valid_in_range [OF assms(2)] assms(3)]
    by simp
qed

theorem padding_noninterference_witness:
  "valid_input (replicate 40 7 @ replicate 40 200) (replicate 30 9 @ replicate 50 1) 40 9 2
   \<and> valid_input ((replicate 40 7 @ replicate 40 200)[36 := 0, 79 := 1])
        ((replicate 30 9 @ replicate 50 1)[38 := 255]) 40 9 2
   \<and> offsets_fit 40 9 2
   \<and> (\<exists>v. ssd_scalar (replicate 40 7 @ replicate 40 200) (replicate 30 9 @ replicate 50 1) 40 9 2
            = Some v
        \<and> ssd_scalar ((replicate 40 7 @ replicate 40 200)[36 := 0, 79 := 1])
            ((replicate 30 9 @ replicate 50 1)[38 := 255]) 40 9 2 = Some v
        \<and> ssd_avx2 (replicate 40 7 @ replicate 40 200) (replicate 30 9 @ replicate 50 1) 40 9 2
            = Some v
        \<and> ssd_avx2 ((replicate 40 7 @ replicate 40 200)[36 := 0, 79 := 1])
            ((replicate 30 9 @ replicate 50 1)[38 := 255]) 40 9 2 = Some v)"
proof -
  let ?a = "replicate 40 7 @ replicate 40 200 :: buffer"
  let ?b = "replicate 30 9 @ replicate 50 1 :: buffer"
  have v1: "valid_input ?a ?b 40 9 2"
    and v2: "valid_input (?a[36 := 0, 79 := 1]) (?b[38 := 255]) 40 9 2"
    by (simp_all add: valid_input_def)
  have f: "offsets_fit 40 9 2"
    by (simp add: offsets_fit_def last_offset_def INT_MAX_def)
  have no_padding: "y * 40 + k \<noteq> 36 \<and> y * 40 + k \<noteq> 79 \<and> y * 40 + k \<noteq> 38"
    if "k < 36" for y k :: nat
    using that by presburger
  have agree: "\<forall>y<nat 2. \<forall>k<nat 9 * 4.
           (?a[36 := 0, 79 := 1]) ! (y * nat 40 + k) = ?a ! (y * nat 40 + k) \<and>
           (?b[38 := 255]) ! (y * nat 40 + k) = ?b ! (y * nat 40 + k)"
    using no_padding by (simp add: nth_list_update)
  show ?thesis
    using v1 v2 f padding_noninterference [OF v1 v2 f agree] by (intro conjI)
qed

text \<open>
  C10. The specification says that on every valid input \<^verbatim>\<open>ssd_scalar\<close> returns 0 if and
  only if the R, G and B samples are equal in every pixel. On two equal images of three
  rows of \<open>2 ^ 30\<close> bytes, one pixel wide, \<^verbatim>\<open>y * stride\<close> overflows \<^verbatim>\<open>int\<close> in the third row
  and \<^verbatim>\<open>ssd_scalar\<close> returns no value, so not 0.
\<close>

theorem zero_iff_rgb_equal_counterexample:
  "valid_input (replicate 3221225472 5) (replicate 3221225472 5) 1073741824 1 3
   \<and> ssd_scalar (replicate 3221225472 5) (replicate 3221225472 5) 1073741824 1 3 \<noteq> Some 0"
  by (simp add: valid_input_def ssd_scalar_def kernel_eval)

text \<open>
  C10, amended. For every valid input on which the offset of the last sample read,
  \<open>(height - 1) * stride + (width - 1) * 4 + 2\<close>, is an \<^verbatim>\<open>int\<close> value, \<^verbatim>\<open>ssd_scalar\<close>
  returns 0 if and only if the R, G and B samples of the two buffers are equal in every
  pixel; the alpha samples play no part.
\<close>

theorem zero_iff_rgb_equal:
  assumes "valid_input a b stride width height" and "offsets_fit stride width height"
  shows "ssd_scalar a b stride width height = Some 0 \<longleftrightarrow>
         (\<forall>y<nat height. \<forall>x<nat width.
            a ! (y * nat stride + x * 4) = b ! (y * nat stride + x * 4) \<and>
            a ! (y * nat stride + x * 4 + 1) = b ! (y * nat stride + x * 4 + 1) \<and>
            a ! (y * nat stride + x * 4 + 2) = b ! (y * nat stride + x * 4 + 2))"
  using scalar_correct [OF valid_in_range [OF assms(1)] assms(2)]
  by (simp add: ssd_sum_zero_iff)

theorem zero_iff_rgb_equal_witness:
  "valid_input [1, 2, 3, 4, 5, 6, 7, 8] [1, 2, 3, 99, 5, 6, 7, 0] 4 1 2
   \<and> offsets_fit 4 1 2
   \<and> ssd_scalar [1, 2, 3, 4, 5, 6, 7, 8] [1, 2, 3, 99, 5, 6, 7, 0] 4 1 2 = Some 0
   \<and> valid_input [1, 2, 3, 4, 5, 6, 7, 8] [1, 2, 3, 4, 5, 6, 9, 8] 4 1 2
   \<and> ssd_scalar [1, 2, 3, 4, 5, 6, 7, 8] [1, 2, 3, 4, 5, 6, 9, 8] 4 1 2 \<noteq> Some 0"
proof -
  have v1: "valid_input [1, 2, 3, 4, 5, 6, 7, 8] [1, 2, 3, 99, 5, 6, 7, 0] 4 1 2"
    and v2: "valid_input [1, 2, 3, 4, 5, 6, 7, 8] [1, 2, 3, 4, 5, 6, 9, 8] 4 1 2"
    by (simp_all add: valid_input_def)
  have f: "offsets_fit 4 1 2"
    by (simp add: offsets_fit_def last_offset_def INT_MAX_def)
  have "ssd_scalar [1, 2, 3, 4, 5, 6, 7, 8] [1, 2, 3, 99, 5, 6, 7, 0] 4 1 2 = Some 0"
    unfolding zero_iff_rgb_equal [OF v1 f] by (simp add: numeral_2_eq_2 All_less_Suc)
  moreover have "ssd_scalar [1, 2, 3, 4, 5, 6, 7, 8] [1, 2, 3, 4, 5, 6, 9, 8] 4 1 2 \<noteq> Some 0"
    unfolding zero_iff_rgb_equal [OF v2 f] by (simp add: numeral_2_eq_2 All_less_Suc)
  ultimately show ?thesis using v1 v2 f by simp
qed

end
